theory Spec2Isabelle
  imports Complex_Main "HOL-Library.AList" "HOL-Library.Word"
begin

unbundle bit_operations_syntax

section \<open>The shared store\<close>

text \<open>
  The limiter record is a Redis hash stored under the limiter's key: a mapping from slot id
  to the text of an absolute expiry timestamp, together with the time-to-live of the whole
  key. A hash is kept as an association list in insertion order; a key that does not exist
  is the hash without entries and without time-to-live.

  The store is reached through commands. \<open>redis_exec\<close> gives each command the meaning the
  Redis server gives it, and returns the integer reply that the client hands back:
  \<^item> \<open>HLEN\<close> replies with the number of fields and changes nothing;
  \<^item> \<open>HSET\<close> writes one field (overwriting its value if present) and replies with the
    number of fields it created;
  \<^item> \<open>EXPIRE\<close> sets the time-to-live of an existing key; a time-to-live that is not
    positive deletes the key at once;
  \<^item> \<open>HDEL\<close> removes one field and replies with the number of fields removed; removing the
    last field removes the key, and a field that is absent leaves the store as it is.
  Every command, and every batch sent through \<open>pipeline().execute()\<close>, runs atomically,
  and the connection is assumed to deliver every command (transport failures are outside the
  model).
\<close>

record redis_hash =
  entries :: "(string \<times> string) list"
  ttl :: "int option"

type_synonym redis = "string \<Rightarrow> redis_hash"

definition no_hash :: redis_hash where
  "no_hash = \<lparr>entries = [], ttl = None\<rparr>"

datatype command =
    HLEN string
  | HSET string string string
  | EXPIRE string int
  | HDEL string string

definition has_field :: "redis \<Rightarrow> string \<Rightarrow> string \<Rightarrow> bool" where
  "has_field s k f = (f \<in> fst ` set (entries (s k)))"

fun redis_exec :: "command \<Rightarrow> redis \<Rightarrow> int \<times> redis" where
  "redis_exec (HLEN k) s = (int (length (entries (s k))), s)"
| "redis_exec (HSET k f v) s =
     ((if has_field s k f then 0 else 1),
      s(k := (s k)\<lparr>entries := AList.update f v (entries (s k))\<rparr>))"
| "redis_exec (EXPIRE k n) s =
     (if entries (s k) = [] then (0, s)
      else if n \<le> 0 then (1, s(k := no_hash))
      else (1, s(k := (s k)\<lparr>ttl := Some n\<rparr>)))"
| "redis_exec (HDEL k f) s =
     (if has_field s k f
      then (1, s(k := (if AList.delete f (entries (s k)) = [] then no_hash
                       else (s k)\<lparr>entries := AList.delete f (entries (s k))\<rparr>)))
      else (0, s))"

text \<open>A batch runs its commands in order on the store and collects the replies.\<close>

fun pipeline_exec :: "command list \<Rightarrow> redis \<Rightarrow> int list \<times> redis" where
  "pipeline_exec [] s = ([], s)"
| "pipeline_exec (c # cs) s =
     (case redis_exec c s of (r, s1) \<Rightarrow>
        (case pipeline_exec cs s1 of (rs, s2) \<Rightarrow> (r # rs, s2)))"

section \<open>Integers as stored text\<close>

text \<open>
  The client writes the integer \<open>int(time.time()) + lock_expire\<close> as its decimal text, and
  the reaper reads a stored value back with \<open>int(...)\<close>. \<open>py_int\<close> is that conversion on
  a byte string in base 10: surrounding ASCII white space is dropped, one sign is allowed,
  and the rest must be decimal digits, where a single underscore may stand between two
  digits. \<open>None\<close> is the \<open>ValueError\<close> of the source. The interpreter's default bound of
  4300 digits on such a conversion is part of it.
\<close>

definition is_space :: "char \<Rightarrow> bool" where
  "is_space c = (c \<in> set [CHR '' '', CHR 0x09, CHR 0x0A, CHR 0x0B, CHR 0x0C, CHR 0x0D])"

definition digit_of :: "char \<Rightarrow> nat option" where
  "digit_of c = (if 48 \<le> (of_char c :: nat) \<and> (of_char c :: nat) \<le> 57
                 then Some (of_char c - 48) else None)"

fun py_digits :: "nat \<Rightarrow> string \<Rightarrow> nat option" where
  "py_digits acc [] = Some acc"
| "py_digits acc [c] =
     (case digit_of c of None \<Rightarrow> None | Some v \<Rightarrow> Some (10 * acc + v))"
| "py_digits acc (c # d # cs) =
     (if c = CHR ''_''
      then (case digit_of d of None \<Rightarrow> None | Some v \<Rightarrow> py_digits (10 * acc + v) cs)
      else (case digit_of c of None \<Rightarrow> None | Some v \<Rightarrow> py_digits (10 * acc + v) (d # cs)))"

definition max_str_digits :: nat where
  "max_str_digits = 4300"

definition py_unsigned :: "string \<Rightarrow> nat option" where
  "py_unsigned cs =
     (case cs of
        [] \<Rightarrow> None
      | c # rest \<Rightarrow>
          (case digit_of c of
             None \<Rightarrow> None
           | Some v \<Rightarrow>
               if max_str_digits < length (filter (\<lambda>x. digit_of x \<noteq> None) cs) then None
               else py_digits v rest))"

definition strip :: "string \<Rightarrow> string" where
  "strip cs = rev (dropWhile is_space (rev (dropWhile is_space cs)))"

definition py_int :: "string \<Rightarrow> int option" where
  "py_int cs =
     (case strip cs of
        [] \<Rightarrow> None
      | c # rest \<Rightarrow>
          if c = CHR ''-'' then map_option (\<lambda>n. - int n) (py_unsigned rest)
          else if c = CHR ''+'' then map_option int (py_unsigned rest)
          else map_option int (py_unsigned (c # rest)))"

definition digit_char :: "nat \<Rightarrow> char" where
  "digit_char d = ''0123456789'' ! d"

function digits_of_nat :: "nat \<Rightarrow> string" where
  "digits_of_nat n =
     (if n < 10 then [digit_char n]
      else digits_of_nat (n div 10) @ [digit_char (n mod 10)])"
  by pat_completeness auto
termination
  by (relation "measure id") auto

definition str_of_int :: "int \<Rightarrow> string" where
  "str_of_int i = (if i < 0 then CHR ''-'' # digits_of_nat (nat (- i)) else digits_of_nat (nat i))"

section \<open>Slot ids\<close>

text \<open>
  The slot id is \<open>str(uuid.uuid4())\<close>. \<open>uuid4\<close> draws sixteen random bytes, read as a
  128-bit number, and stamps the variant and the version on it as the constructor of
  \<open>UUID\<close> does with \<open>version=4\<close>: clear \<open>0xc000 << 48\<close>, set \<open>0x8000 << 48\<close>, clear
  \<open>0xf000 << 64\<close>, set \<open>4 << 76\<close>. The random number is an input. \<open>str\<close> writes the
  number as 32 lower-case hexadecimal digits, most significant first, in groups of 8, 4,
  4, 4 and 12 digits joined by hyphens.
\<close>

definition uuid4 :: "128 word \<Rightarrow> 128 word" where
  "uuid4 r =
     (((r AND NOT (push_bit 48 0xc000)) OR push_bit 48 0x8000)
        AND NOT (push_bit 64 0xf000)) OR push_bit 76 4"

definition hex_digit :: "nat \<Rightarrow> char" where
  "hex_digit d = ''0123456789abcdef'' ! d"

definition nibble :: "128 word \<Rightarrow> nat \<Rightarrow> nat" where
  "nibble w i = unat (take_bit 4 (drop_bit (4 * i) w))"

definition hex32 :: "128 word \<Rightarrow> string" where
  "hex32 w = map (\<lambda>i. hex_digit (nibble w (31 - i))) [0..<32]"

definition str_uuid :: "128 word \<Rightarrow> string" where
  "str_uuid w =
     take 8 (hex32 w) @ ''-'' @ take 4 (drop 8 (hex32 w)) @ ''-'' @ take 4 (drop 12 (hex32 w))
       @ ''-'' @ take 4 (drop 16 (hex32 w)) @ ''-'' @ drop 20 (hex32 w)"

section \<open>Clock readings\<close>

text \<open>
  \<open>time.monotonic()\<close> returns a binary64 floating-point number, kept here as the real
  number it denotes, and \<open>time.monotonic() - start\<close> is the floating-point difference:
  the exact difference rounded to the nearest binary64 number, ties to the even
  significand, with 53 significant bits, the least exponent of the subnormal range, and
  infinity from \<open>2 ^ 1024\<close> on. \<open>exponent x\<close> is the integer part of the binary
  logarithm of \<open>\<bar>x\<bar>\<close> and \<open>ulp x\<close> the spacing of the binary64 numbers around \<open>x\<close>.
  The comparison \<open>elapsed > lock_timeout\<close> is exact, as the comparison of a float with an
  integer or a float is.
\<close>

function floor_log2 :: "nat \<Rightarrow> nat" where
  "floor_log2 n = (if n < 2 then 0 else Suc (floor_log2 (n div 2)))"
  by pat_completeness auto
termination
  by (relation "measure id") auto

definition exponent :: "real \<Rightarrow> int" where
  "exponent x =
     (if 1 \<le> \<bar>x\<bar> then int (floor_log2 (nat \<lfloor>\<bar>x\<bar>\<rfloor>))
      else - int (Suc (floor_log2 (nat \<lceil>1 / \<bar>x\<bar>\<rceil> - 1))))"

definition pow2 :: "int \<Rightarrow> real" where
  "pow2 e = (if 0 \<le> e then 2 ^ nat e else 1 / 2 ^ nat (- e))"

definition round_half_even :: "real \<Rightarrow> int" where
  "round_half_even m =
     (if m - of_int \<lfloor>m\<rfloor> < 1 / 2 then \<lfloor>m\<rfloor>
      else if 1 / 2 < m - of_int \<lfloor>m\<rfloor> then \<lfloor>m\<rfloor> + 1
      else if even \<lfloor>m\<rfloor> then \<lfloor>m\<rfloor> else \<lfloor>m\<rfloor> + 1)"

datatype pyfloat = Finite real | PosInf | NegInf

definition ulp :: "real \<Rightarrow> real" where
  "ulp x = pow2 (max (exponent x - 52) (- 1074))"

definition double_round :: "real \<Rightarrow> pyfloat" where
  "double_round x =
     (if x = 0 then Finite 0
      else if pow2 1024 \<le> of_int (round_half_even (x / ulp x)) * ulp x then PosInf
      else if of_int (round_half_even (x / ulp x)) * ulp x \<le> - pow2 1024 then NegInf
      else Finite (of_int (round_half_even (x / ulp x)) * ulp x))"

definition double_sub :: "real \<Rightarrow> real \<Rightarrow> pyfloat" where
  "double_sub a b = double_round (a - b)"

fun float_gt :: "pyfloat \<Rightarrow> real \<Rightarrow> bool" where
  "float_gt (Finite x) t = (t < x)"
| "float_gt PosInf t = True"
| "float_gt NegInf t = False"

section \<open>The acquire/execute/release protocol\<close>

text \<open>
  Modelled from the spec: \<open>LimitConfiguration\<close> (module \<open>configuration\<close>) is not among the
  sources; its fields are the five that \<open>limit\<close> reads: the limiter name \<open>key\<close>, the
  maximum number of slots \<open>limit\<close>, the wait timeout \<open>limit_timeout\<close>, the slot
  time-to-live \<open>limit_expire\<close> in whole seconds and the retry interval \<open>limit_interval\<close>.
  Durations are real numbers.
\<close>

record limit_configuration =
  key :: string
  limit :: int
  limit_timeout :: real
  limit_expire :: int
  limit_interval :: real

text \<open>
  The way \<open>limit\<close> ends. \<open>LimitExceeded\<close> is \<open>ConcurrencyLimitExceededException\<close>
  with the two keyword arguments it is raised with; \<open>ScopeRaised e\<close> is the exception
  \<open>e\<close> of the scoped block. The type \<open>'e\<close> is the type of the exceptions the scoped
  block can raise: the class \<open>_LockAcquireException\<close> is created anew inside each call of
  \<open>limit\<close> and is not visible to the block, so it is not among them.
\<close>

datatype 'e outcome =
    Completed
  | ScopeRaised 'e
  | LimitExceeded int real

text \<open>
  \<open>limit\<close> is a generator that talks to the store between suspensions, and other
  callers may act on the store between any two of its commands. A call is therefore a
  machine whose phase says where the control is; one step runs up to and including the
  next command (or batch) sent to the store, or the next suspension:
  \<^item> \<open>Precheck\<close>: at the head of the loop, about to read \<open>hlen\<close>;
  \<^item> \<open>Acquire\<close>: the first check passed, about to send the batch \<open>hset, expire, hlen\<close>;
  \<^item> \<open>Rollback\<close>: the count read back exceeded the limit, about to \<open>hdel\<close> the own id;
  \<^item> \<open>Scope count\<close>: suspended at \<open>yield count\<close> while the scoped block runs;
  \<^item> \<open>Retry\<close>: in the handler of \<open>_LockAcquireException\<close>, about to read the clock;
  \<^item> \<open>Sleep\<close>: in \<open>time.sleep(lock_interval)\<close>;
  \<^item> \<open>Release out\<close>: in the \<open>finally\<close> block, about to \<open>hdel\<close> the own id;
  \<^item> \<open>Exited out\<close>: the context manager has returned or raised.
\<close>

datatype 'e phase =
    Precheck
  | Acquire
  | Rollback
  | Scope int
  | Retry
  | Sleep
  | Release "'e outcome"
  | Exited "'e outcome"

record 'e process =
  lock_id :: string
  start :: real
  phase :: "'e phase"

text \<open>
  What a step observes of its environment: \<open>int(time.time())\<close>, \<open>time.monotonic()\<close> (a
  binary64 number), and how the scoped block ended (\<open>None\<close>: it ran to completion).
\<close>

record 'e observation =
  wall_clock :: int
  monotonic :: real
  scope_result :: "'e option"

text \<open>
  Entering \<open>limit\<close>: the start of the wait is read from the monotonic clock and the slot id
  is drawn once, as the text of \<open>uuid4\<close> of the random number \<open>r\<close>, both before the loop.
\<close>

definition limit_enter :: "128 word \<Rightarrow> real \<Rightarrow> 'e process" where
  "limit_enter r now = \<lparr>lock_id = str_uuid (uuid4 r), start = now, phase = Precheck\<rparr>"

text \<open>The commands a step sends, as one atomic batch.\<close>

definition request :: "limit_configuration \<Rightarrow> 'e observation \<Rightarrow> 'e process \<Rightarrow> command list" where
  "request cfg ob p =
     (case phase p of
        Precheck \<Rightarrow> [HLEN (key cfg)]
      | Acquire \<Rightarrow>
          [HSET (key cfg) (lock_id p) (str_of_int (wall_clock ob + limit_expire cfg)),
           EXPIRE (key cfg) (limit_expire cfg),
           HLEN (key cfg)]
      | Rollback \<Rightarrow> [HDEL (key cfg) (lock_id p)]
      | Release out \<Rightarrow> [HDEL (key cfg) (lock_id p)]
      | _ \<Rightarrow> [])"

text \<open>Where the control goes once the replies are in; \<open>count\<close> is the last reply.\<close>

definition resume :: "limit_configuration \<Rightarrow> 'e observation \<Rightarrow> 'e process \<Rightarrow> int list \<Rightarrow> 'e process" where
  "resume cfg ob p replies =
     (case phase p of
        Precheck \<Rightarrow>
          (if last replies \<ge> limit cfg then p\<lparr>phase := Retry\<rparr> else p\<lparr>phase := Acquire\<rparr>)
      | Acquire \<Rightarrow>
          (if last replies > limit cfg then p\<lparr>phase := Rollback\<rparr>
           else p\<lparr>phase := Scope (last replies)\<rparr>)
      | Rollback \<Rightarrow> p\<lparr>phase := Retry\<rparr>
      | Scope count \<Rightarrow>
          (case scope_result ob of
             None \<Rightarrow> p\<lparr>phase := Release Completed\<rparr>
           | Some e \<Rightarrow> p\<lparr>phase := Release (ScopeRaised e)\<rparr>)
      | Retry \<Rightarrow>
          (if float_gt (double_sub (monotonic ob) (start p)) (limit_timeout cfg)
           then p\<lparr>phase := Release (LimitExceeded (limit cfg) (limit_timeout cfg))\<rparr>
           else p\<lparr>phase := Sleep\<rparr>)
      | Sleep \<Rightarrow> p\<lparr>phase := Precheck\<rparr>
      | Release out \<Rightarrow> p\<lparr>phase := Exited out\<rparr>
      | Exited out \<Rightarrow> p)"

definition limit_step ::
  "limit_configuration \<Rightarrow> 'e observation \<Rightarrow> redis \<times> 'e process \<Rightarrow> redis \<times> 'e process" where
  "limit_step cfg ob sp =
     (case pipeline_exec (request cfg ob (snd sp)) (fst sp) of
        (replies, s') \<Rightarrow> (s', resume cfg ob (snd sp) replies))"

text \<open>A call running alone: one step for each observation.\<close>

fun limit_run ::
  "limit_configuration \<Rightarrow> 'e observation list \<Rightarrow> redis \<times> 'e process \<Rightarrow> redis \<times> 'e process" where
  "limit_run cfg [] sp = sp"
| "limit_run cfg (ob # obs) sp = limit_run cfg obs (limit_step cfg ob sp)"

section \<open>Callers racing on one limiter\<close>

text \<open>
  Any number of calls of \<open>limit\<close> with the same configuration share the store. An
  execution is a list of events, each one atomic: a call takes its next step, the reaper
  (or anyone acting for it) removes one field of the record, or the time-to-live of the
  record runs out and the server drops the key. A caller that crashes takes no further
  step.
\<close>

record 'e system =
  store :: redis
  procs :: "'e process list"

datatype 'e event =
    Run nat "'e observation"
  | Reap string
  | Expire

fun sys_step :: "limit_configuration \<Rightarrow> 'e event \<Rightarrow> 'e system \<Rightarrow> 'e system" where
  "sys_step cfg (Run i ob) st =
     (if i < length (procs st)
      then (case limit_step cfg ob (store st, procs st ! i) of
              (s', p') \<Rightarrow> \<lparr>store = s', procs = (procs st)[i := p']\<rparr>)
      else st)"
| "sys_step cfg (Reap f) st = st\<lparr>store := snd (redis_exec (HDEL (key cfg) f) (store st))\<rparr>"
| "sys_step cfg Expire st =
     (if ttl (store st (key cfg)) = None then st
      else st\<lparr>store := (store st)(key cfg := no_hash)\<rparr>)"

fun sys_run :: "limit_configuration \<Rightarrow> 'e event list \<Rightarrow> 'e system \<Rightarrow> 'e system" where
  "sys_run cfg [] st = st"
| "sys_run cfg (ev # evs) st = sys_run cfg evs (sys_step cfg ev st)"

text \<open>
  The slot ids written by caller \<open>i\<close> in the course of an execution, one for each
  \<open>hset\<close> it sends, in order.
\<close>

fun hset_fields :: "command list \<Rightarrow> string list" where
  "hset_fields [] = []"
| "hset_fields (HSET k f v # cs) = f # hset_fields cs"
| "hset_fields (c # cs) = hset_fields cs"

fun slot_ids_written ::
  "limit_configuration \<Rightarrow> nat \<Rightarrow> 'e event list \<Rightarrow> 'e system \<Rightarrow> string list" where
  "slot_ids_written cfg i [] st = []"
| "slot_ids_written cfg i (Run j ob # evs) st =
     (if j = i \<and> i < length (procs st) then hset_fields (request cfg ob (procs st ! i)) else [])
     @ slot_ids_written cfg i evs (sys_step cfg (Run j ob) st)"
| "slot_ids_written cfg i (ev # evs) st = slot_ids_written cfg i evs (sys_step cfg ev st)"

text \<open>
  The slot ids deleted by caller \<open>i\<close> in the course of an execution, one for each
  \<open>hdel\<close> it sends (in a rollback or in the release), in order.
\<close>

fun hdel_fields :: "command list \<Rightarrow> string list" where
  "hdel_fields [] = []"
| "hdel_fields (HDEL k f # cs) = f # hdel_fields cs"
| "hdel_fields (c # cs) = hdel_fields cs"

fun slot_ids_deleted ::
  "limit_configuration \<Rightarrow> nat \<Rightarrow> 'e event list \<Rightarrow> 'e system \<Rightarrow> string list" where
  "slot_ids_deleted cfg i [] st = []"
| "slot_ids_deleted cfg i (Run j ob # evs) st =
     (if j = i \<and> i < length (procs st) then hdel_fields (request cfg ob (procs st ! i)) else [])
     @ slot_ids_deleted cfg i evs (sys_step cfg (Run j ob) st)"
| "slot_ids_deleted cfg i (ev # evs) st = slot_ids_deleted cfg i evs (sys_step cfg ev st)"

text \<open>
  The entries of the record that are not awaiting their rollback: every entry but those of
  callers in phase \<open>Rollback\<close>, that is, between an insert that overshot and the \<open>hdel\<close>
  that undoes it.
\<close>

definition rolling_back :: "'e process list \<Rightarrow> string list" where
  "rolling_back ps = map lock_id (filter (\<lambda>p. phase p = Rollback) ps)"

definition committed :: "limit_configuration \<Rightarrow> 'e system \<Rightarrow> (string \<times> string) list" where
  "committed cfg st =
     filter (\<lambda>e. fst e \<notin> set (rolling_back (procs st))) (entries (store st (key cfg)))"

section \<open>The reaper\<close>

text \<open>
  \<open>hscan_iter\<close> hands out the entries of the record; the reaper runs alone here, so the
  scan is the record as it stands when the reaper starts. \<open>clean_lock\<close> is the test of the
  loop body: \<open>current >= int(scan_lock_expire)\<close>, and \<open>True\<close> where the conversion raises.
\<close>

definition hscan_iter :: "redis \<Rightarrow> string \<Rightarrow> (string \<times> string) list" where
  "hscan_iter s k = entries (s k)"

definition clean_lock :: "int \<Rightarrow> string \<Rightarrow> bool" where
  "clean_lock current scan_lock_expire =
     (case py_int scan_lock_expire of None \<Rightarrow> True | Some expire \<Rightarrow> current \<ge> expire)"

fun clean_loop :: "string \<Rightarrow> int \<Rightarrow> (string \<times> string) list \<Rightarrow> int \<times> redis \<Rightarrow> int \<times> redis" where
  "clean_loop lock_key current [] cs = cs"
| "clean_loop lock_key current ((scan_lock_id, scan_lock_expire) # rest) (count, s) =
     (if clean_lock current scan_lock_expire
      then (case redis_exec (HDEL lock_key scan_lock_id) s of
              (removed, s') \<Rightarrow> clean_loop lock_key current rest (count + removed, s'))
      else clean_loop lock_key current rest (count, s))"

definition limit_clean :: "limit_configuration \<Rightarrow> int \<Rightarrow> redis \<Rightarrow> int \<times> redis" where
  "limit_clean cfg current s =
     clean_loop (key cfg) current (hscan_iter s (key cfg)) (0, s)"

section \<open>Derived notions\<close>

text \<open>
  The store as the batch of phase \<open>Acquire\<close> leaves it: the own field written, then the
  time-to-live of the record set.
\<close>

definition after_insert :: "limit_configuration \<Rightarrow> 'e observation \<Rightarrow> 'e process \<Rightarrow> redis \<Rightarrow> redis" where
  "after_insert cfg ob p s =
     snd (redis_exec (EXPIRE (key cfg) (limit_expire cfg))
       (snd (redis_exec (HSET (key cfg) (lock_id p) (str_of_int (wall_clock ob + limit_expire cfg))) s)))"

text \<open>
  Every caller that has left \<open>limit\<close> has no field of its own in the record.
\<close>

definition released :: "limit_configuration \<Rightarrow> 'e system \<Rightarrow> bool" where
  "released cfg st =
     (\<forall>p \<in> set (procs st). \<forall>out. phase p = Exited out \<longrightarrow>
        \<not> has_field (store st) (key cfg) (lock_id p))"

section \<open>Example executions\<close>

text \<open>
  A limiter \<open>jobs\<close> with one slot, an empty store, a record holding an expired, a
  future and a corrupt expiry (read at time 1000), and two callers, entered with the random
  numbers 10 and 11 and so with the slot ids \<open>ex_id_a\<close> and \<open>ex_id_b\<close>, that both pass
  the first check before either inserts, so that the second insert overshoots.
\<close>

definition ex_cfg :: limit_configuration where
  "ex_cfg = \<lparr>key = ''jobs'', limit = 1, limit_timeout = 5, limit_expire = 30, limit_interval = 1 / 10\<rparr>"

definition ex_empty :: redis where
  "ex_empty = (\<lambda>k. no_hash)"

definition ex_record :: redis where
  "ex_record = ex_empty(''jobs'' :=
     \<lparr>entries = [(''a'', ''990''), (''b'', ''1010''), (''c'', ''corrupt'')], ttl = Some 30\<rparr>)"

definition ex_ob :: "string observation" where
  "ex_ob = \<lparr>wall_clock = 1000, monotonic = 1, scope_result = None\<rparr>"

definition ex_id_a :: string where
  "ex_id_a = ''00000000-0000-4000-8000-00000000000a''"

definition ex_id_b :: string where
  "ex_id_b = ''00000000-0000-4000-8000-00000000000b''"

definition ex_sys :: "string system" where
  "ex_sys = \<lparr>store = ex_empty, procs = [limit_enter 10 0, limit_enter 11 0]\<rparr>"

definition ex_race :: "string event list" where
  "ex_race = [Run 0 ex_ob, Run 1 ex_ob, Run 0 ex_ob, Run 1 ex_ob]"

text \<open>
  Further observations and executions on the same limiter: a scoped block that raises, a
  clock reading past the timeout, an execution in which the first caller completes, one in
  which the first caller's block raises and the second caller times out, one in which the
  second caller is rolled back, retries and gets the slot once the first has released it,
  and a record that already holds one slot.
\<close>

definition ex_ob_raise :: "string observation" where
  "ex_ob_raise = \<lparr>wall_clock = 1000, monotonic = 1, scope_result = Some ''boom''\<rparr>"

definition ex_ob_late :: "string observation" where
  "ex_ob_late = \<lparr>wall_clock = 1007, monotonic = 7, scope_result = None\<rparr>"

definition ex_done :: "string event list" where
  "ex_done = ex_race @ [Run 0 ex_ob, Run 0 ex_ob]"

definition ex_exits :: "string event list" where
  "ex_exits = ex_race @ [Run 1 ex_ob, Run 1 ex_ob_late, Run 1 ex_ob, Run 0 ex_ob_raise, Run 0 ex_ob]"

definition ex_retry :: "string event list" where
  "ex_retry = ex_race @ [Run 1 ex_ob, Run 0 ex_ob, Run 0 ex_ob,
                         Run 1 ex_ob, Run 1 ex_ob, Run 1 ex_ob, Run 1 ex_ob]"

definition ex_full :: redis where
  "ex_full = ex_empty(''jobs'' := \<lparr>entries = [(ex_id_a, ''1030'')], ttl = Some 30\<rparr>)"

text \<open>
  The same limiter with a slot time-to-live of zero; and the binary64 numbers nearest to
  0.001 and 5.001, whose exact difference exceeds 5 while their floating-point difference
  is 5.
\<close>

definition ex_cfg_zero :: limit_configuration where
  "ex_cfg_zero = ex_cfg\<lparr>limit_expire := 0\<rparr>"

definition ex_start_ms :: real where
  "ex_start_ms = 1152921504606847 / 1152921504606846976"

definition ex_ob_ms :: "string observation" where
  "ex_ob_ms = \<lparr>wall_clock = 1005, monotonic = 5630625434119963 / 1125899906842624,
              scope_result = None\<rparr>"

section \<open>Slot ids are read back from their text\<close>

lemma nibble_less: "nibble w i < 16"
proof -
  have "unat (take_bit 4 (drop_bit (4 * i) w)) = take_bit 4 (unat (drop_bit (4 * i) w))"
    by (simp add: unsigned_take_bit_eq)
  also have "\<dots> < 2 ^ 4" by (rule take_bit_nat_less_exp)
  finally show ?thesis by (simp add: nibble_def)
qed

lemma hex_digit_inj: "a < 16 \<Longrightarrow> b < 16 \<Longrightarrow> hex_digit a = hex_digit b \<Longrightarrow> a = b"
proof -
  assume a: "a < 16" and b: "b < 16" and e: "hex_digit a = hex_digit b"
  have d: "distinct ''0123456789abcdef''" by simp
  have "a < length ''0123456789abcdef''" "b < length ''0123456789abcdef''" using a b by simp_all
  then show "a = b" using nth_eq_iff_index_eq [OF d] e unfolding hex_digit_def by blast
qed

lemma hex_digit_not_hyphen: "d < 16 \<Longrightarrow> hex_digit d \<noteq> CHR ''-''"
proof -
  assume "d < 16"
  then have "hex_digit d \<in> set ''0123456789abcdef''"
    unfolding hex_digit_def by (intro nth_mem) simp
  then show ?thesis by auto
qed

lemma length_hex32: "length (hex32 w) = 32"
  by (simp add: hex32_def)

lemma word_from_nibbles:
  assumes "\<And>j. j < 32 \<Longrightarrow> nibble w1 j = nibble w2 j"
  shows "w1 = w2"
proof (rule bit_word_eqI)
  fix n assume n: "n < LENGTH(128)"
  then have j: "n div 4 < 32" by simp
  have eq: "take_bit 4 (drop_bit (4 * (n div 4)) w1) = take_bit 4 (drop_bit (4 * (n div 4)) w2)"
    using assms [OF j] by (simp add: nibble_def word_unat_eq_iff)
  have "bit w n = bit (take_bit 4 (drop_bit (4 * (n div 4)) w)) (n mod 4)" for w :: "128 word"
    by (simp add: bit_take_bit_iff bit_drop_bit_eq)
  then show "bit w1 n = bit w2 n" using eq by simp
qed

lemma hex32_inj: "hex32 w1 = hex32 w2 \<Longrightarrow> w1 = w2"
proof (rule word_from_nibbles)
  fix j :: nat assume j: "j < 32"
  assume e: "hex32 w1 = hex32 w2"
  have "hex32 w ! (31 - j) = hex_digit (nibble w j)" for w
  proof -
    have "31 - j < length [0..<32]" by simp
    then have "hex32 w ! (31 - j) = hex_digit (nibble w (31 - [0..<32] ! (31 - j)))"
      unfolding hex32_def by (rule nth_map)
    also have "[0..<32] ! (31 - j) = 31 - j" by (simp del: upt_rec_numeral)
    finally show ?thesis using j by simp
  qed
  then have "hex_digit (nibble w1 j) = hex_digit (nibble w2 j)" using e by metis
  then show "nibble w1 j = nibble w2 j" by (rule hex_digit_inj [OF nibble_less nibble_less])
qed

lemma hex32_no_hyphen: "c \<in> set (hex32 w) \<Longrightarrow> c \<noteq> CHR ''-''"
  by (auto simp: hex32_def hex_digit_not_hyphen [OF nibble_less] simp del: upt_rec_numeral)

lemma regroup: "take 8 h @ take 4 (drop 8 h) @ take 4 (drop 12 h) @ take 4 (drop 16 h) @ drop 20 h = h"
proof -
  have a: "take 4 (drop 16 h) @ drop 20 h = drop 16 h"
    using append_take_drop_id [of 4 "drop 16 h"] by simp
  have b: "take 4 (drop 12 h) @ drop 16 h = drop 12 h"
    using append_take_drop_id [of 4 "drop 12 h"] by simp
  have c: "take 4 (drop 8 h) @ drop 12 h = drop 8 h"
    using append_take_drop_id [of 4 "drop 8 h"] by simp
  show ?thesis by (simp only: a b c append_take_drop_id)
qed

lemma str_uuid_hex: "filter (\<lambda>c. c \<noteq> CHR ''-'') (str_uuid w) = hex32 w"
proof -
  have keep: "filter (\<lambda>c. c \<noteq> CHR ''-'') xs = xs" if "set xs \<subseteq> set (hex32 w)" for xs
    using that hex32_no_hyphen [of _ w] by (intro filter_True) blast
  have "filter (\<lambda>c. c \<noteq> CHR ''-'') (str_uuid w) =
        take 8 (hex32 w) @ take 4 (drop 8 (hex32 w)) @ take 4 (drop 12 (hex32 w))
          @ take 4 (drop 16 (hex32 w)) @ drop 20 (hex32 w)"
    unfolding str_uuid_def filter_append
    by (simp add: keep set_take_subset set_drop_subset
          subset_trans [OF set_take_subset set_drop_subset])
  then show ?thesis by (simp only: regroup)
qed

lemma str_uuid_inj: "(str_uuid w1 = str_uuid w2) = (w1 = w2)"
  using str_uuid_hex [of w1] str_uuid_hex [of w2] hex32_inj [of w1 w2] by auto

lemma length_str_uuid: "length (str_uuid w) = 36"
  by (simp add: str_uuid_def length_hex32)

lemma upt_32:
  "[0..<32] = [0, 1, 2, 3, 4, 5, 6, 7, 8, 9, 10, 11, 12, 13, 14, 15, 16, 17, 18, 19, 20, 21, 22,
               23, 24, 25, 26, 27, 28, 29, 30, 31]"
  by code_simp

lemma ex_enter_a: "limit_enter 10 now = \<lparr>lock_id = ex_id_a, start = now, phase = Precheck\<rparr>"
  by (simp add: limit_enter_def ex_id_a_def str_uuid_def hex32_def nibble_def hex_digit_def
        uuid4_def upt_32)

lemma ex_enter_b: "limit_enter 11 now = \<lparr>lock_id = ex_id_b, start = now, phase = Precheck\<rparr>"
  by (simp add: limit_enter_def ex_id_b_def str_uuid_def hex32_def nibble_def hex_digit_def
        uuid4_def upt_32)

lemma ex_ids_differ: "ex_id_a \<noteq> ex_id_b" "ex_id_b \<noteq> ex_id_a"
  by (simp_all add: ex_id_a_def ex_id_b_def)

lemmas float_defs =
  double_sub_def double_round_def ulp_def exponent_def pow2_def round_half_even_def

lemmas ex_defs = ex_cfg_def ex_empty_def ex_record_def ex_ob_def ex_sys_def ex_race_def
  ex_enter_a ex_enter_b ex_ids_differ

lemmas eval_defs =
  limit_step_def request_def resume_def no_hash_def has_field_def
  str_of_int_def digit_char_def rolling_back_def committed_def float_defs

lemmas ex_defs2 = ex_defs ex_ob_raise_def ex_ob_late_def ex_done_def ex_exits_def ex_retry_def
  ex_full_def ex_cfg_zero_def ex_start_ms_def ex_ob_ms_def

section \<open>One step of a call, phase by phase\<close>

lemma step_Precheck:
  "phase p = Precheck \<Longrightarrow>
   limit_step cfg ob (s, p) =
     (s, if int (length (entries (s (key cfg)))) \<ge> limit cfg
         then p\<lparr>phase := Retry\<rparr> else p\<lparr>phase := Acquire\<rparr>)"
  by (simp add: limit_step_def request_def resume_def)

lemma step_Acquire:
  "phase p = Acquire \<Longrightarrow>
   limit_step cfg ob (s, p) =
     (after_insert cfg ob p s,
      if int (length (entries (after_insert cfg ob p s (key cfg)))) > limit cfg
      then p\<lparr>phase := Rollback\<rparr>
      else p\<lparr>phase := Scope (int (length (entries (after_insert cfg ob p s (key cfg)))))\<rparr>)"
  by (simp add: limit_step_def request_def resume_def after_insert_def no_hash_def)

lemma step_Rollback:
  "phase p = Rollback \<Longrightarrow>
   limit_step cfg ob (s, p) =
     (snd (redis_exec (HDEL (key cfg) (lock_id p)) s), p\<lparr>phase := Retry\<rparr>)"
  by (simp add: limit_step_def request_def resume_def)

lemma step_Scope:
  "phase p = Scope c \<Longrightarrow>
   limit_step cfg ob (s, p) =
     (s, case scope_result ob of
           None \<Rightarrow> p\<lparr>phase := Release Completed\<rparr>
         | Some e \<Rightarrow> p\<lparr>phase := Release (ScopeRaised e)\<rparr>)"
  by (simp add: limit_step_def request_def resume_def)

lemma step_Retry:
  "phase p = Retry \<Longrightarrow>
   limit_step cfg ob (s, p) =
     (s, if float_gt (double_sub (monotonic ob) (start p)) (limit_timeout cfg)
         then p\<lparr>phase := Release (LimitExceeded (limit cfg) (limit_timeout cfg))\<rparr>
         else p\<lparr>phase := Sleep\<rparr>)"
  by (simp add: limit_step_def request_def resume_def)

lemma step_Sleep:
  "phase p = Sleep \<Longrightarrow> limit_step cfg ob (s, p) = (s, p\<lparr>phase := Precheck\<rparr>)"
  by (simp add: limit_step_def request_def resume_def)

lemma step_Release:
  "phase p = Release out \<Longrightarrow>
   limit_step cfg ob (s, p) =
     (snd (redis_exec (HDEL (key cfg) (lock_id p)) s), p\<lparr>phase := Exited out\<rparr>)"
  by (simp add: limit_step_def request_def resume_def)

lemma step_Exited:
  "phase p = Exited out \<Longrightarrow> limit_step cfg ob (s, p) = (s, p)"
  by (simp add: limit_step_def request_def resume_def)

lemmas step_simps =
  step_Precheck step_Acquire step_Rollback step_Scope step_Retry step_Sleep step_Release
  step_Exited

lemma hdel_entries:
  "entries (snd (redis_exec (HDEL k f) s) k) = AList.delete f (entries (s k))"
  by (simp add: has_field_def no_hash_def)

lemma hdel_absent: "\<not> has_field (snd (redis_exec (HDEL k f) s)) k f"
  using hdel_entries [of k f s] AList.delete_notin_dom [of f "entries (s k)"]
  by (simp add: has_field_def)

lemma after_insert_entries:
  "entries (after_insert cfg ob p s (key cfg)) =
     (if limit_expire cfg \<le> 0 then []
      else AList.update (lock_id p) (str_of_int (wall_clock ob + limit_expire cfg))
             (entries (s (key cfg))))"
  by (simp add: after_insert_def no_hash_def)

lemma step_lock_id: "lock_id (snd (limit_step cfg ob (s, p))) = lock_id p"
  by (cases "phase p") (simp_all add: step_simps split: option.splits)

lemma step_start: "start (snd (limit_step cfg ob (s, p))) = start p"
  by (cases "phase p") (simp_all add: step_simps split: option.splits)

section \<open>Invariants of executions\<close>

lemma sys_run_invariant:
  assumes "I st" and "\<And>ev st'. I st' \<Longrightarrow> I (sys_step cfg ev st')"
  shows "I (sys_run cfg evs st)"
  using assms(1)
proof (induction evs arbitrary: st)
  case Nil
  then show ?case by simp
next
  case (Cons ev evs)
  then show ?case using assms(2) by simp
qed

lemma length_filter_mono:
  "(\<And>e. e \<in> set es \<Longrightarrow> P e \<Longrightarrow> Q e) \<Longrightarrow> length (filter P es) \<le> length (filter Q es)"
proof (induction es)
  case Nil
  then show ?case by simp
next
  case (Cons a es)
  then show ?case by (auto simp: le_SucI)
qed

lemma filter_update_hidden:
  "\<not> P k \<Longrightarrow> filter (\<lambda>e. P (fst e)) (AList.update k v es) = filter (\<lambda>e. P (fst e)) es"
  by (induction es) auto

lemma rolling_back_update_sub:
  assumes "i < length ps"
  shows "set (rolling_back ps) \<subseteq>
         set (rolling_back (ps[i := q])) \<union> (if phase (ps ! i) = Rollback then {lock_id (ps ! i)} else {})"
proof
  fix x assume "x \<in> set (rolling_back ps)"
  then obtain p where p: "p \<in> set ps" "phase p = Rollback" "x = lock_id p"
    by (auto simp: rolling_back_def)
  then obtain j where j: "j < length ps" "ps ! j = p" by (auto simp: in_set_conv_nth)
  show "x \<in> set (rolling_back (ps[i := q])) \<union>
              (if phase (ps ! i) = Rollback then {lock_id (ps ! i)} else {})"
  proof (cases "j = i")
    case True
    then show ?thesis using p j by simp
  next
    case False
    then have "(ps[i := q]) ! j = p" using j by simp
    then have "p \<in> set (ps[i := q])" using j(1) by (metis length_list_update nth_mem)
    then show ?thesis using p by (auto simp: rolling_back_def)
  qed
qed

lemma rolling_back_update_new:
  "i < length ps \<Longrightarrow> phase q = Rollback \<Longrightarrow> lock_id q \<in> set (rolling_back (ps[i := q]))"
  by (auto simp: rolling_back_def intro!: image_eqI [where x = q] set_update_memI)

text \<open>Three ways in which a step keeps the bound.\<close>

lemma committed_shrinks:
  assumes es: "\<And>e. e \<in> set (entries (store st' (key cfg))) \<Longrightarrow> fst e \<notin> set (rolling_back (procs st'))
                 \<Longrightarrow> e \<in> set (entries (store st (key cfg))) \<and> fst e \<notin> set (rolling_back (procs st))"
    and sub: "\<exists>Q. entries (store st' (key cfg)) = filter Q (entries (store st (key cfg)))"
  shows "length (committed cfg st') \<le> length (committed cfg st)"
proof -
  obtain Q where Q: "entries (store st' (key cfg)) = filter Q (entries (store st (key cfg)))"
    using sub by blast
  have "committed cfg st' =
        filter (\<lambda>e. Q e \<and> fst e \<notin> set (rolling_back (procs st'))) (entries (store st (key cfg)))"
    by (simp add: committed_def Q conj_commute)
  also have "length \<dots> \<le> length (committed cfg st)"
    unfolding committed_def
  proof (rule length_filter_mono)
    fix e assume "e \<in> set (entries (store st (key cfg)))"
      and "Q e \<and> fst e \<notin> set (rolling_back (procs st'))"
    then show "fst e \<notin> set (rolling_back (procs st))"
      using es [of e] Q by simp
  qed
  finally show ?thesis .
qed

lemma run_step_unfold:
  "i < length (procs st) \<Longrightarrow>
   sys_step cfg (Run i ob) st =
     \<lparr>store = fst (limit_step cfg ob (store st, procs st ! i)),
      procs = (procs st)[i := snd (limit_step cfg ob (store st, procs st ! i))]\<rparr>"
  by (simp add: case_prod_unfold)

lemma committed_run_step:
  assumes i: "i < length (procs st)"
    and inv: "int (length (committed cfg st)) \<le> limit cfg"
  shows "int (length (committed cfg (sys_step cfg (Run i ob) st))) \<le> limit cfg"
proof -
  let ?p = "procs st ! i"
  let ?s = "store st"
  let ?q = "snd (limit_step cfg ob (?s, ?p))"
  define st' where "st' = sys_step cfg (Run i ob) st"
  have st': "store st' = fst (limit_step cfg ob (?s, ?p))" "procs st' = (procs st)[i := ?q]"
    unfolding st'_def using run_step_unfold [OF i, of cfg ob] by simp_all
  have rb: "set (rolling_back (procs st)) \<subseteq> set (rolling_back (procs st')) \<union>
            (if phase ?p = Rollback then {lock_id ?p} else {})"
    using rolling_back_update_sub [OF i, of ?q] st' by simp
  have quiet: "length (committed cfg st') \<le> length (committed cfg st)"
    if same: "store st' = ?s" and ph: "phase ?p \<noteq> Rollback"
  proof (rule committed_shrinks)
    show "\<exists>Q. entries (store st' (key cfg)) = filter Q (entries (store st (key cfg)))"
      using same by (intro exI [of _ "\<lambda>_. True"]) simp
  next
    fix e assume "e \<in> set (entries (store st' (key cfg)))"
      and "fst e \<notin> set (rolling_back (procs st'))"
    then show "e \<in> set (entries (store st (key cfg))) \<and> fst e \<notin> set (rolling_back (procs st))"
      using rb ph same by auto
  qed
  have deleting: "length (committed cfg st') \<le> length (committed cfg st)"
    if del: "store st' = snd (redis_exec (HDEL (key cfg) (lock_id ?p)) ?s)"
  proof (rule committed_shrinks)
    show "\<exists>Q. entries (store st' (key cfg)) = filter Q (entries (store st (key cfg)))"
      using del hdel_entries [of "key cfg" "lock_id ?p" ?s] by (auto simp: AList.delete_eq)
  next
    fix e assume e: "e \<in> set (entries (store st' (key cfg)))"
      and n: "fst e \<notin> set (rolling_back (procs st'))"
    have "e \<in> set (entries (?s (key cfg)))" "fst e \<noteq> lock_id ?p"
      using e del hdel_entries [of "key cfg" "lock_id ?p" ?s] by (auto simp: AList.delete_eq)
    then show "e \<in> set (entries (store st (key cfg))) \<and> fst e \<notin> set (rolling_back (procs st))"
      using rb n by (auto split: if_splits)
  qed
  have "int (length (committed cfg st')) \<le> limit cfg"
  proof (cases "phase ?p")
    case Precheck
    then have "store st' = ?s" using st' by (simp add: step_Precheck)
    then show ?thesis using quiet Precheck inv by force
  next
    case Acquire
    let ?s1 = "after_insert cfg ob ?p ?s"
    let ?count = "int (length (entries (?s1 (key cfg))))"
    have s1: "store st' = ?s1" using st' Acquire by (simp add: step_Acquire)
    show ?thesis
    proof (cases "?count > limit cfg")
      case False
      have "length (committed cfg st') \<le> length (entries (?s1 (key cfg)))"
        by (simp add: committed_def s1)
      then show ?thesis using False by simp
    next
      case True
      then have q: "phase ?q = Rollback" using Acquire by (simp add: step_Acquire)
      then have inrb: "lock_id ?p \<in> set (rolling_back (procs st'))"
        using rolling_back_update_new [OF i q] st' step_lock_id [of cfg ob ?s ?p] by simp
      have pos: "\<not> limit_expire cfg \<le> 0"
      proof
        assume "limit_expire cfg \<le> 0"
        then have "?count = 0" by (simp add: after_insert_entries)
        moreover have "0 \<le> limit cfg" using inv by simp
        ultimately show False using True by simp
      qed
      have "committed cfg st' =
            filter (\<lambda>e. fst e \<notin> set (rolling_back (procs st')))
              (AList.update (lock_id ?p) (str_of_int (wall_clock ob + limit_expire cfg))
                 (entries (?s (key cfg))))"
        using pos by (simp add: committed_def s1 after_insert_entries)
      also have "\<dots> = filter (\<lambda>e. fst e \<notin> set (rolling_back (procs st'))) (entries (?s (key cfg)))"
        using filter_update_hidden [of "\<lambda>k. k \<notin> set (rolling_back (procs st'))" "lock_id ?p"] inrb
        by simp
      also have "length \<dots> \<le> length (committed cfg st)"
        unfolding committed_def
        by (rule length_filter_mono) (use rb Acquire in auto)
      finally show ?thesis using inv by simp
    qed
  next
    case Rollback
    then have "store st' = snd (redis_exec (HDEL (key cfg) (lock_id ?p)) ?s)"
      using st' by (simp add: step_Rollback)
    then show ?thesis using deleting inv by force
  next
    case (Scope c)
    then have "store st' = ?s" using st' by (simp add: step_Scope)
    then show ?thesis using quiet Scope inv by force
  next
    case Retry
    then have "store st' = ?s" using st' by (simp add: step_Retry)
    then show ?thesis using quiet Retry inv by force
  next
    case Sleep
    then have "store st' = ?s" using st' by (simp add: step_Sleep)
    then show ?thesis using quiet Sleep inv by force
  next
    case (Release out)
    then have "store st' = snd (redis_exec (HDEL (key cfg) (lock_id ?p)) ?s)"
      using st' by (simp add: step_Release)
    then show ?thesis using deleting inv by force
  next
    case (Exited out)
    then have "store st' = ?s" using st' by (simp add: step_Exited)
    then show ?thesis using quiet Exited inv by force
  qed
then show ?thesis by (simp only: st'_def)
qed

lemma committed_sys_step:
  assumes inv: "int (length (committed cfg st)) \<le> limit cfg"
  shows "int (length (committed cfg (sys_step cfg ev st))) \<le> limit cfg"
proof (cases ev)
  case (Run i ob)
  show ?thesis
  proof (cases "i < length (procs st)")
    case True
    then show ?thesis using committed_run_step [OF True inv] Run by simp
  next
    case False
    then show ?thesis using inv Run by simp
  qed
next
  case (Reap f)
  have "length (committed cfg (sys_step cfg ev st)) \<le> length (committed cfg st)"
  proof (rule committed_shrinks)
    show "\<exists>Q. entries (store (sys_step cfg ev st) (key cfg)) = filter Q (entries (store st (key cfg)))"
      using Reap hdel_entries [of "key cfg" f "store st"] by (auto simp: AList.delete_eq)
  next
    fix e assume "e \<in> set (entries (store (sys_step cfg ev st) (key cfg)))"
      and "fst e \<notin> set (rolling_back (procs (sys_step cfg ev st)))"
    then show "e \<in> set (entries (store st (key cfg))) \<and> fst e \<notin> set (rolling_back (procs st))"
      using Reap hdel_entries [of "key cfg" f "store st"] by (auto simp: AList.delete_eq)
  qed
  then show ?thesis using inv by simp
next
  case Expire
  have "length (committed cfg (sys_step cfg ev st)) \<le> length (committed cfg st)"
    using Expire by (simp add: committed_def no_hash_def)
  then show ?thesis using inv by simp
qed

lemma hdel_keeps_absent:
  "has_field (snd (redis_exec (HDEL k f) s)) k' g \<Longrightarrow> has_field s k' g"
  by (auto simp: has_field_def no_hash_def AList.delete_eq split: if_splits)

lemma after_insert_adds_only_own:
  "has_field (after_insert cfg ob p s) k g \<Longrightarrow> g = lock_id p \<or> has_field s k g"
  by (auto simp: after_insert_def has_field_def no_hash_def AList.dom_update split: if_splits)

lemma step_adds_only_own:
  assumes "has_field (fst (limit_step cfg ob (s, p))) k g"
  shows "g = lock_id p \<or> has_field s k g"
proof (cases "phase p")
  case Precheck
  then show ?thesis using assms by (simp add: step_Precheck)
next
  case Acquire
  then show ?thesis using assms after_insert_adds_only_own [of cfg ob p s k g]
    by (simp add: step_Acquire)
next
  case Rollback
  then have "fst (limit_step cfg ob (s, p)) = snd (redis_exec (HDEL (key cfg) (lock_id p)) s)"
    by (simp only: step_Rollback fst_conv)
  then show ?thesis using assms hdel_keeps_absent [of "key cfg" "lock_id p" s k g]
    by (simp only:) blast
next
  case (Scope c)
  then show ?thesis using assms by (simp add: step_Scope)
next
  case Retry
  then show ?thesis using assms by (simp add: step_Retry)
next
  case Sleep
  then show ?thesis using assms by (simp add: step_Sleep)
next
  case (Release out)
  then have "fst (limit_step cfg ob (s, p)) = snd (redis_exec (HDEL (key cfg) (lock_id p)) s)"
    by (simp only: step_Release fst_conv)
  then show ?thesis using assms hdel_keeps_absent [of "key cfg" "lock_id p" s k g]
    by (simp only:) blast
next
  case (Exited out)
  then show ?thesis using assms by (simp add: step_Exited)
qed

lemma step_into_Exited:
  "phase (snd (limit_step cfg ob (s, p))) = Exited out \<Longrightarrow>
   phase p = Release out \<or> phase p = Exited out"
  by (cases "phase p") (auto simp: step_simps split: if_splits option.splits)

section \<open>The reaper's loop\<close>

lemma hdel_other_key:
  "k' \<noteq> k \<Longrightarrow> snd (redis_exec (HDEL k f) s) k' = s k'"
  by simp

lemma hdel_reply:
  "fst (redis_exec (HDEL k f) s) = (if has_field s k f then 1 else 0)"
  by simp

lemma clean_loop_other_key:
  "k' \<noteq> k \<Longrightarrow> snd (clean_loop k cur xs (c, s)) k' = s k'"
proof (induction xs arbitrary: c s)
  case Nil
  then show ?case by simp
next
  case (Cons x xs)
  obtain f v where x: "x = (f, v)" by (cases x)
  show ?case
  proof (cases "clean_lock cur v")
    case True
    obtain r s1 where e: "redis_exec (HDEL k f) s = (r, s1)" by (cases "redis_exec (HDEL k f) s")
    have "s1 k' = s k'" using hdel_other_key [OF Cons.prems, of f s] e by simp
    then show ?thesis using Cons.IH [OF Cons.prems, of "c + r" s1] x True e by simp
  next
    case False
    then show ?thesis using Cons.IH [OF Cons.prems, of c s] x by simp
  qed
qed

lemma clean_loop_entries:
  "entries (snd (clean_loop k cur xs (c, s)) k) =
     filter (\<lambda>e. fst e \<notin> set (map fst (filter (\<lambda>x. clean_lock cur (snd x)) xs))) (entries (s k))"
proof (induction xs arbitrary: c s)
  case Nil
  then show ?case by simp
next
  case (Cons x xs)
  obtain f v where x: "x = (f, v)" by (cases x)
  let ?S = "set (map fst (filter (\<lambda>x. clean_lock cur (snd x)) xs))"
  show ?case
  proof (cases "clean_lock cur v")
    case True
    obtain r s1 where e: "redis_exec (HDEL k f) s = (r, s1)" by (cases "redis_exec (HDEL k f) s")
    have s1: "entries (s1 k) = AList.delete f (entries (s k))"
      using hdel_entries [of k f s] e by simp
    have "entries (snd (clean_loop k cur (x # xs) (c, s)) k) =
          entries (snd (clean_loop k cur xs (c + r, s1)) k)"
      using x True e by simp
    also have "\<dots> = filter (\<lambda>e. fst e \<notin> ?S) (AList.delete f (entries (s k)))"
      using Cons.IH [of "c + r" s1] s1 by simp
    also have "\<dots> = filter (\<lambda>e. f \<noteq> fst e \<and> fst e \<notin> ?S) (entries (s k))"
      by (simp add: AList.delete_eq case_prod_unfold conj_commute)
    also have "\<dots> = filter (\<lambda>e. fst e \<notin> insert f ?S) (entries (s k))"
      by (rule filter_cong) auto
    finally show ?thesis using x True by simp
  next
    case False
    then show ?thesis using Cons.IH [of c s] x by simp
  qed
qed

lemma clean_loop_count:
  "distinct (map fst xs) \<Longrightarrow> set xs \<subseteq> set (entries (s k)) \<Longrightarrow>
   fst (clean_loop k cur xs (c, s)) = c + int (length (filter (\<lambda>e. clean_lock cur (snd e)) xs))"
proof (induction xs arbitrary: c s)
  case Nil
  then show ?case by simp
next
  case (Cons x xs)
  obtain f v where x: "x = (f, v)" by (cases x)
  have d: "distinct (map fst xs)" and fx: "f \<notin> fst ` set xs"
    using Cons.prems(1) x by auto
  show ?case
  proof (cases "clean_lock cur v")
    case True
    obtain r s1 where e: "redis_exec (HDEL k f) s = (r, s1)" by (cases "redis_exec (HDEL k f) s")
    have "has_field s k f" using Cons.prems(2) x by (force simp: has_field_def)
    then have r: "r = 1" using hdel_reply [of k f s] e by simp
    have s1: "entries (s1 k) = AList.delete f (entries (s k))"
      using hdel_entries [of k f s] e by simp
    have sub: "set xs \<subseteq> set (entries (s1 k))"
    proof
      fix e assume e: "e \<in> set xs"
      then have "fst e \<noteq> f" using fx by force
      then show "e \<in> set (entries (s1 k))"
        using e Cons.prems(2) by (auto simp: s1 AList.delete_eq)
    qed
    show ?thesis using Cons.IH [of s1 "c + r", OF d sub] x True e r by simp
  next
    case False
    have sub: "set xs \<subseteq> set (entries (s k))" using Cons.prems(2) by simp
    show ?thesis using Cons.IH [of s c, OF d sub] x False by simp
  qed
qed

lemma filter_distinct_fields:
  "distinct (map fst es) \<Longrightarrow>
   filter (\<lambda>e. fst e \<notin> set (map fst (filter (\<lambda>x. P (snd x)) es))) es = filter (\<lambda>e. \<not> P (snd e)) es"
proof -
  assume d: "distinct (map fst es)"
  have "\<And>e. e \<in> set es \<Longrightarrow> (fst e \<notin> set (map fst (filter (\<lambda>x. P (snd x)) es))) = (\<not> P (snd e))"
  proof -
    fix e assume e: "e \<in> set es"
    have "\<And>x. x \<in> set es \<Longrightarrow> fst x = fst e \<Longrightarrow> x = e"
    proof -
      fix x assume "x \<in> set es" "fst x = fst e"
      then have "(fst e, snd x) \<in> set es" "(fst e, snd e) \<in> set es" using e by (metis prod.collapse)+
      then have "snd x = snd e" using d by (rule eq_key_imp_eq_value [rotated])
      then show "x = e" using \<open>fst x = fst e\<close> by (simp add: prod_eq_iff)
    qed
    then show "(fst e \<notin> set (map fst (filter (\<lambda>x. P (snd x)) es))) = (\<not> P (snd e))"
      using e by force
  qed
  then show ?thesis by (intro filter_cong) auto
qed

section \<open>Slot ids, release and scope counts along executions\<close>

lemma sys_step_lock_ids: "map lock_id (procs (sys_step cfg ev st)) = map lock_id (procs st)"
proof (cases ev)
  case (Run i ob)
  show ?thesis
  proof (cases "i < length (procs st)")
    case True
    let ?q = "snd (limit_step cfg ob (store st, procs st ! i))"
    have "map lock_id ((procs st)[i := ?q]) = (map lock_id (procs st))[i := lock_id (procs st ! i)]"
      by (simp only: map_update step_lock_id)
    also have "\<dots> = map lock_id (procs st)"
      using True by (simp add: list_update_same_conv)
    finally have "map lock_id ((procs st)[i := ?q]) = map lock_id (procs st)" .
    moreover have "procs (sys_step cfg ev st) = (procs st)[i := ?q]"
      unfolding Run run_step_unfold [OF True] by simp
    ultimately show ?thesis by simp
  next
    case False
    then show ?thesis using Run by simp
  qed
next
  case (Reap f)
  then show ?thesis by simp
next
  case Expire
  then show ?thesis by simp
qed

lemma sys_run_lock_ids: "map lock_id (procs (sys_run cfg evs st)) = map lock_id (procs st)"
proof (induction evs arbitrary: st)
  case Nil
  show ?case by simp
next
  case (Cons ev evs)
  have "map lock_id (procs (sys_run cfg (ev # evs) st)) =
        map lock_id (procs (sys_step cfg ev st))"
    using Cons.IH [of "sys_step cfg ev st"] by (simp only: sys_run.simps)
  then show ?case by (simp only: sys_step_lock_ids)
qed

lemma sys_run_length: "length (procs (sys_run cfg evs st)) = length (procs st)"
  using arg_cong [OF sys_run_lock_ids [of cfg evs st], of length] by simp

lemma sys_run_lock_id_nth:
  "i < length (procs st) \<Longrightarrow> lock_id (procs (sys_run cfg evs st) ! i) = lock_id (procs st ! i)"
  using arg_cong [OF sys_run_lock_ids [of cfg evs st], of "\<lambda>xs. xs ! i"] sys_run_length [of cfg evs st]
  by simp

lemma released_run_step:
  assumes i: "i < length (procs st)"
    and d: "distinct (map lock_id (procs st))" and r: "released cfg st"
  shows "released cfg (sys_step cfg (Run i ob) st)"
proof -
  let ?p = "procs st ! i"
  let ?q = "snd (limit_step cfg ob (store st, ?p))"
  let ?s' = "fst (limit_step cfg ob (store st, ?p))"
  have keep: "\<not> has_field ?s' (key cfg) (lock_id p')"
    if p': "p' \<in> set ((procs st)[i := ?q])" and ex: "phase p' = Exited out" for p' out
  proof -
    obtain j where j: "j < length (procs st)" "((procs st)[i := ?q]) ! j = p'"
      using p' by (auto simp: in_set_conv_nth)
    show ?thesis
    proof (cases "j = i")
      case True
      then have q: "p' = ?q" using j by simp
      have id: "lock_id p' = lock_id ?p" unfolding q by (rule step_lock_id)
      have "phase ?p = Release out \<or> phase ?p = Exited out"
        using ex step_into_Exited [of cfg ob "store st" ?p out] unfolding q by blast
      then show ?thesis
      proof
        assume rel: "phase ?p = Release out"
        have "?s' = snd (redis_exec (HDEL (key cfg) (lock_id ?p)) (store st))"
          by (simp only: step_Release [OF rel] fst_conv)
        then show ?thesis
          using hdel_absent [of "key cfg" "lock_id ?p" "store st"] by (simp only: id not_False_eq_True)
      next
        assume e: "phase ?p = Exited out"
        have "?p \<in> set (procs st)" using i by simp
        then have "\<not> has_field (store st) (key cfg) (lock_id ?p)"
          using r e unfolding released_def by blast
        moreover have "?s' = store st" by (simp only: step_Exited [OF e] fst_conv)
        ultimately show ?thesis by (simp only: id not_False_eq_True)
      qed
    next
      case False
      then have pj: "procs st ! j = p'" using j by simp
      then have "p' \<in> set (procs st)" using j(1) nth_mem by blast
      then have a: "\<not> has_field (store st) (key cfg) (lock_id p')"
        using r ex unfolding released_def by blast
      have "map lock_id (procs st) ! j \<noteq> map lock_id (procs st) ! i"
        using nth_eq_iff_index_eq [OF d, of j i] False j(1) i by (simp only: length_map) blast
      then have "lock_id p' \<noteq> lock_id ?p" using j(1) i pj by simp
      then show ?thesis
        using a step_adds_only_own [of cfg ob "store st" ?p "key cfg" "lock_id p'"] by blast
    qed
  qed
  have st': "store (sys_step cfg (Run i ob) st) = ?s'"
            "procs (sys_step cfg (Run i ob) st) = (procs st)[i := ?q]"
    unfolding run_step_unfold [OF i] by simp_all
  show ?thesis
    unfolding released_def st' using keep by blast
qed

lemma released_sys_step:
  assumes d: "distinct (map lock_id (procs st))" and r: "released cfg st"
  shows "released cfg (sys_step cfg ev st)"
proof (cases ev)
  case (Run i ob)
  show ?thesis
  proof (cases "i < length (procs st)")
    case False
    then show ?thesis using r Run by simp
  next
    case True
    then show ?thesis unfolding Run using d r by (rule released_run_step)
  qed
next
  case (Reap f)
  have "procs (sys_step cfg ev st) = procs st"
       "store (sys_step cfg ev st) = snd (redis_exec (HDEL (key cfg) f) (store st))"
    unfolding Reap by simp_all
  then show ?thesis
    using r hdel_keeps_absent [of "key cfg" f "store st" "key cfg"]
    unfolding released_def by metis
next
  case Expire
  then show ?thesis using r by (auto simp: released_def has_field_def no_hash_def)
qed

lemma released_sys_run:
  "distinct (map lock_id (procs st)) \<Longrightarrow> released cfg st \<Longrightarrow> released cfg (sys_run cfg evs st)"
proof (induction evs arbitrary: st)
  case Nil
  then show ?case by simp
next
  case (Cons ev evs)
  have "distinct (map lock_id (procs (sys_step cfg ev st)))"
    using Cons.prems(1) by (simp only: sys_step_lock_ids)
  moreover have "released cfg (sys_step cfg ev st)"
    using Cons.prems by (rule released_sys_step)
  ultimately have "released cfg (sys_run cfg evs (sys_step cfg ev st))" by (rule Cons.IH)
  then show ?case by (simp only: sys_run.simps)
qed

lemma step_into_Scope:
  assumes "0 < limit_expire cfg" and "phase (snd (limit_step cfg ob (s, p))) = Scope c"
  shows "phase p = Acquire \<and> 1 \<le> c \<and> c \<le> limit cfg
       \<and> c = int (length (entries (fst (limit_step cfg ob (s, p)) (key cfg))))
       \<and> has_field (fst (limit_step cfg ob (s, p))) (key cfg) (lock_id p)"
proof (cases "phase p")
  case Acquire
  let ?v = "str_of_int (wall_clock ob + limit_expire cfg)"
  let ?es = "AList.update (lock_id p) ?v (entries (s (key cfg)))"
  have es: "entries (after_insert cfg ob p s (key cfg)) = ?es"
    using assms(1) by (simp add: after_insert_entries)
  have ne: "?es \<noteq> []" by (rule AList.update_nonempty)
  then have pos: "1 \<le> int (length ?es)" by (cases ?es) simp_all
  have own: "lock_id p \<in> fst ` set ?es" by (simp add: AList.dom_update)
  have c: "c = int (length ?es)" "\<not> int (length ?es) > limit cfg"
    using assms(2) Acquire by (simp_all add: step_Acquire es split: if_splits)
  have "fst (limit_step cfg ob (s, p)) = after_insert cfg ob p s"
    using Acquire by (simp add: step_Acquire)
  then show ?thesis using Acquire pos own c es by (simp add: has_field_def)
qed (use assms(2) in \<open>simp_all add: step_simps split: if_splits option.splits\<close>)

lemma step_into_Scope_le:
  assumes "phase (snd (limit_step cfg ob (s, p))) = Scope c"
  shows "phase p = Acquire \<and> c \<le> limit cfg
       \<and> c = int (length (entries (fst (limit_step cfg ob (s, p)) (key cfg))))"
proof (cases "phase p")
  case Acquire
  then show ?thesis using assms by (simp add: step_Acquire split: if_splits)
qed (use assms in \<open>simp_all add: step_simps split: if_splits option.splits\<close>)

lemma scope_bounds_sys_step:
  assumes inv: "\<forall>p \<in> set (procs st). \<forall>c. phase p = Scope c \<longrightarrow> c \<le> limit cfg \<and> (0 < limit_expire cfg \<longrightarrow> 1 \<le> c)"
  shows "\<forall>p \<in> set (procs (sys_step cfg ev st)). \<forall>c. phase p = Scope c \<longrightarrow> c \<le> limit cfg \<and> (0 < limit_expire cfg \<longrightarrow> 1 \<le> c)"
proof (cases ev)
  case (Run i ob)
  show ?thesis
  proof (cases "i < length (procs st)")
    case False
    then show ?thesis using inv Run by simp
  next
    case True
    let ?q = "snd (limit_step cfg ob (store st, procs st ! i))"
    have pr: "procs (sys_step cfg ev st) = (procs st)[i := ?q]"
      unfolding Run run_step_unfold [OF True] by simp
    have "c \<le> limit cfg \<and> (0 < limit_expire cfg \<longrightarrow> 1 \<le> c)" if "p \<in> set ((procs st)[i := ?q])" "phase p = Scope c" for p c
    proof (cases "p = ?q")
      case True
      then show ?thesis
        using step_into_Scope [of cfg ob "store st" "procs st ! i" c]
              step_into_Scope_le [of cfg ob "store st" "procs st ! i" c] that(2)
        by blast
    next
      case False
      have "set ((procs st)[i := ?q]) \<subseteq> insert ?q (set (procs st))"
        by (rule set_update_subset_insert)
      then have "p \<in> set (procs st)" using that(1) False by blast
      then show ?thesis using inv that(2) by blast
    qed
    then show ?thesis unfolding pr by blast
  qed
next
  case (Reap f)
  then show ?thesis using inv by simp
next
  case Expire
  then show ?thesis using inv by simp
qed

lemma scope_bounds_sys_run:
  "\<forall>p \<in> set (procs st). \<forall>c. phase p = Scope c \<longrightarrow> c \<le> limit cfg \<and> (0 < limit_expire cfg \<longrightarrow> 1 \<le> c) \<Longrightarrow>
         \<forall>p \<in> set (procs (sys_run cfg evs st)). \<forall>c. phase p = Scope c \<longrightarrow> c \<le> limit cfg \<and> (0 < limit_expire cfg \<longrightarrow> 1 \<le> c)"
proof (induction evs arbitrary: st)
  case Nil
  then show ?case by simp
next
  case (Cons ev evs)
  have "\<forall>p \<in> set (procs (sys_step cfg ev st)). \<forall>c. phase p = Scope c \<longrightarrow> c \<le> limit cfg \<and> (0 < limit_expire cfg \<longrightarrow> 1 \<le> c)"
    using Cons.prems by (rule scope_bounds_sys_step)
  then have "\<forall>p \<in> set (procs (sys_run cfg evs (sys_step cfg ev st))).
               \<forall>c. phase p = Scope c \<longrightarrow> c \<le> limit cfg \<and> (0 < limit_expire cfg \<longrightarrow> 1 \<le> c)"
    by (rule Cons.IH)
  then show ?case by (simp only: sys_run.simps)
qed

lemma hset_fields_request: "set (hset_fields (request cfg ob p)) \<subseteq> {lock_id p}"
  by (cases "phase p") (simp_all add: request_def)

lemma sys_step_length: "length (procs (sys_step cfg ev st)) = length (procs st)"
  using arg_cong [OF sys_step_lock_ids [of cfg ev st], of length] by simp

lemma sys_step_lock_id_nth:
  "i < length (procs st) \<Longrightarrow> lock_id (procs (sys_step cfg ev st) ! i) = lock_id (procs st ! i)"
  using arg_cong [OF sys_step_lock_ids [of cfg ev st], of "\<lambda>xs. xs ! i"] sys_step_length [of cfg ev st]
  by simp

lemma slot_ids_written_Cons:
  "set (slot_ids_written cfg i (ev # evs) st) \<subseteq>
     (if i < length (procs st) then {lock_id (procs st ! i)} else {})
     \<union> set (slot_ids_written cfg i evs (sys_step cfg ev st))"
proof (cases ev)
  case (Run j ob)
  have "slot_ids_written cfg i (Run j ob # evs) st =
        (if j = i \<and> i < length (procs st) then hset_fields (request cfg ob (procs st ! i)) else [])
        @ slot_ids_written cfg i evs (sys_step cfg (Run j ob) st)"
    by (rule slot_ids_written.simps(2))
  then show ?thesis
    unfolding Run using hset_fields_request [of cfg ob "procs st ! i"]
    by (simp only: set_append split: if_splits) auto
next
  case (Reap f)
  have "slot_ids_written cfg i (Reap f # evs) st =
        slot_ids_written cfg i evs (sys_step cfg (Reap f) st)"
    by (rule slot_ids_written.simps)
  then show ?thesis unfolding Reap by (simp only:) blast
next
  case Expire
  have "slot_ids_written cfg i (Expire # evs) st =
        slot_ids_written cfg i evs (sys_step cfg Expire st)"
    by (rule slot_ids_written.simps)
  then show ?thesis unfolding Expire by (simp only:) blast
qed

lemma slot_ids_written_own:
  "set (slot_ids_written cfg i evs st) \<subseteq>
     (if i < length (procs st) then {lock_id (procs st ! i)} else {})"
proof (induction evs arbitrary: st)
  case Nil
  show ?case by simp
next
  case (Cons ev evs)
  have tl: "set (slot_ids_written cfg i evs (sys_step cfg ev st)) \<subseteq>
            (if i < length (procs st) then {lock_id (procs st ! i)} else {})"
  proof (cases "i < length (procs st)")
    case True
    then show ?thesis
      using Cons.IH [of "sys_step cfg ev st"] sys_step_lock_id_nth [OF True, of cfg ev]
      by (simp only: sys_step_length if_True)
  next
    case False
    then show ?thesis
      using Cons.IH [of "sys_step cfg ev st"] by (simp only: sys_step_length if_False)
  qed
  show ?case using slot_ids_written_Cons [of cfg i ev evs st] tl by blast
qed

lemma hdel_fields_request: "set (hdel_fields (request cfg ob p)) \<subseteq> {lock_id p}"
  by (cases "phase p") (simp_all add: request_def)

lemma slot_ids_deleted_Cons:
  "set (slot_ids_deleted cfg i (ev # evs) st) \<subseteq>
     (if i < length (procs st) then {lock_id (procs st ! i)} else {})
     \<union> set (slot_ids_deleted cfg i evs (sys_step cfg ev st))"
proof (cases ev)
  case (Run j ob)
  have "slot_ids_deleted cfg i (Run j ob # evs) st =
        (if j = i \<and> i < length (procs st) then hdel_fields (request cfg ob (procs st ! i)) else [])
        @ slot_ids_deleted cfg i evs (sys_step cfg (Run j ob) st)"
    by (rule slot_ids_deleted.simps(2))
  then show ?thesis
    unfolding Run using hdel_fields_request [of cfg ob "procs st ! i"]
    by (simp only: set_append split: if_splits) auto
next
  case (Reap f)
  have "slot_ids_deleted cfg i (Reap f # evs) st =
        slot_ids_deleted cfg i evs (sys_step cfg (Reap f) st)"
    by (rule slot_ids_deleted.simps)
  then show ?thesis unfolding Reap by (simp only:) blast
next
  case Expire
  have "slot_ids_deleted cfg i (Expire # evs) st =
        slot_ids_deleted cfg i evs (sys_step cfg Expire st)"
    by (rule slot_ids_deleted.simps)
  then show ?thesis unfolding Expire by (simp only:) blast
qed

lemma slot_ids_deleted_own:
  "set (slot_ids_deleted cfg i evs st) \<subseteq>
     (if i < length (procs st) then {lock_id (procs st ! i)} else {})"
proof (induction evs arbitrary: st)
  case Nil
  show ?case by simp
next
  case (Cons ev evs)
  have tl: "set (slot_ids_deleted cfg i evs (sys_step cfg ev st)) \<subseteq>
            (if i < length (procs st) then {lock_id (procs st ! i)} else {})"
  proof (cases "i < length (procs st)")
    case True
    then show ?thesis
      using Cons.IH [of "sys_step cfg ev st"] sys_step_lock_id_nth [OF True, of cfg ev]
      by (simp only: sys_step_length if_True)
  next
    case False
    then show ?thesis
      using Cons.IH [of "sys_step cfg ev st"] by (simp only: sys_step_length if_False)
  qed
  show ?case using slot_ids_deleted_Cons [of cfg i ev evs st] tl by blast
qed

lemma entered_ids_distinct:
  assumes "distinct (map (\<lambda>c. uuid4 (fst c)) callers)"
  shows "distinct (map lock_id (map (\<lambda>c. limit_enter (fst c) (snd c) :: 'e process) callers))"
proof -
  have "map lock_id (map (\<lambda>c. limit_enter (fst c) (snd c) :: 'e process) callers) =
        map str_uuid (map (\<lambda>c. uuid4 (fst c)) callers)"
    by (simp add: limit_enter_def)
  moreover have "inj_on str_uuid (set (map (\<lambda>c. uuid4 (fst c)) callers))"
    by (rule inj_onI) (simp only: str_uuid_inj)
  ultimately show ?thesis using assms by (simp only: distinct_map)
qed

section \<open>The claims\<close>

text \<open>
  Claim C1. Callers race on one limiter whose record starts with at most \<open>limit\<close>
  entries; each command or batch is atomic, the reaper and the expiry of the record may
  interfere at any point, and callers may stop at any point. After every event of every
  execution, the entries of the record that are not awaiting their rollback (the entries
  other than those of callers between an insert that overshot and the \<open>hdel\<close> undoing
  it) number at most \<open>limit\<close>; so whenever no caller is in that window, the whole
  record holds at most \<open>limit\<close> entries. The overshoot itself is real: in the example
  the record holds two entries under a limit of one while the second caller has yet to
  roll back, and one entry once it has.
\<close>

theorem limit_bounds_committed_slots:
  assumes "int (length (entries (store st (key cfg)))) \<le> limit cfg"
  shows "int (length (committed cfg (sys_run cfg evs st))) \<le> limit cfg
       \<and> (rolling_back (procs (sys_run cfg evs st)) = [] \<longrightarrow>
            int (length (entries (store (sys_run cfg evs st) (key cfg)))) \<le> limit cfg)"
proof -
  have "length (committed cfg st) \<le> length (entries (store st (key cfg)))"
    by (simp add: committed_def)
  then have "int (length (committed cfg st)) \<le> limit cfg" using assms by simp
  then have a: "int (length (committed cfg (sys_run cfg evs st))) \<le> limit cfg"
    by (rule sys_run_invariant) (rule committed_sys_step)
  then show ?thesis by (auto simp: committed_def)
qed

theorem limit_bounds_committed_slots_witness:
  "int (length (entries (store ex_sys (key ex_cfg)))) \<le> limit ex_cfg
   \<and> length (entries (store (sys_run ex_cfg ex_race ex_sys) (key ex_cfg))) = 2
   \<and> rolling_back (procs (sys_run ex_cfg ex_race ex_sys)) = [ex_id_b]
   \<and> int (length (committed ex_cfg (sys_run ex_cfg ex_race ex_sys))) \<le> limit ex_cfg
   \<and> rolling_back (procs (sys_run ex_cfg (ex_race @ [Run 1 ex_ob]) ex_sys)) = []
   \<and> int (length (entries (store (sys_run ex_cfg (ex_race @ [Run 1 ex_ob]) ex_sys) (key ex_cfg))))
       \<le> limit ex_cfg"
  using limit_bounds_committed_slots [of ex_sys ex_cfg ex_race]
        limit_bounds_committed_slots [of ex_sys ex_cfg "ex_race @ [Run 1 ex_ob]"]
  by (simp add: ex_defs eval_defs)

text \<open>
  Claim C2. Callers with distinct slot ids enter \<open>limit\<close> and run in any interleaving,
  with the reaper and the expiry of the record interfering at any point. Whenever a caller
  has left \<open>limit\<close>, with whatever outcome (the scoped block completed, the scoped block
  raised, or the wait timed out), its slot id is absent from the record. The way out is the
  same on every path: the \<open>finally\<close> block is the phase \<open>Release\<close>, its one command is the
  \<open>hdel\<close> of the own id whatever the outcome, and the step that performs it is the step
  that leaves \<open>limit\<close>, with the id absent from the store it leaves behind. The deletion
  is assumed to reach the store.
\<close>

theorem limit_releases_on_every_exit:
  assumes "distinct (map lock_id (procs st))"
    and "\<forall>p \<in> set (procs st). phase p = Precheck"
    and "i < length (procs st)"
    and "phase (procs (sys_run cfg evs st) ! i) = Exited out"
  shows "\<not> has_field (store (sys_run cfg evs st)) (key cfg) (lock_id (procs st ! i))
       \<and> (phase p = Release out' \<longrightarrow>
            request cfg ob p = [HDEL (key cfg) (lock_id p)]
          \<and> phase (snd (limit_step cfg ob (s, p))) = Exited out'
          \<and> \<not> has_field (fst (limit_step cfg ob (s, p))) (key cfg) (lock_id p))"
proof -
  have "released cfg st" using assms(2) by (simp add: released_def)
  then have r: "released cfg (sys_run cfg evs st)"
    using assms(1) by (intro released_sys_run)
  have "procs (sys_run cfg evs st) ! i \<in> set (procs (sys_run cfg evs st))"
    using assms(3) by (simp add: sys_run_length)
  then have "\<not> has_field (store (sys_run cfg evs st)) (key cfg)
               (lock_id (procs (sys_run cfg evs st) ! i))"
    using r assms(4) unfolding released_def by blast
  then have a: "\<not> has_field (store (sys_run cfg evs st)) (key cfg) (lock_id (procs st ! i))"
    by (simp only: sys_run_lock_id_nth [OF assms(3)] not_False_eq_True)
  have b: "request cfg ob p = [HDEL (key cfg) (lock_id p)]
          \<and> phase (snd (limit_step cfg ob (s, p))) = Exited out'
          \<and> \<not> has_field (fst (limit_step cfg ob (s, p))) (key cfg) (lock_id p)"
    if rel: "phase p = Release out'"
  proof -
    have "request cfg ob p = [HDEL (key cfg) (lock_id p)]" using rel by (simp add: request_def)
    moreover have "phase (snd (limit_step cfg ob (s, p))) = Exited out'"
      by (simp add: step_Release [OF rel])
    moreover have "\<not> has_field (fst (limit_step cfg ob (s, p))) (key cfg) (lock_id p)"
      using hdel_absent [of "key cfg" "lock_id p" s]
      by (simp only: step_Release [OF rel] fst_conv not_False_eq_True)
    ultimately show ?thesis by blast
  qed
  show ?thesis using a b by blast
qed

theorem limit_releases_on_every_exit_witness:
  "distinct (map lock_id (procs ex_sys))
   \<and> map phase (procs ex_sys) = [Precheck, Precheck]
   \<and> 0 < length (procs ex_sys) \<and> 1 < length (procs ex_sys)
   \<and> phase (procs (sys_run ex_cfg ex_done ex_sys) ! 0) = Exited Completed
   \<and> \<not> has_field (store (sys_run ex_cfg ex_done ex_sys)) (key ex_cfg) ex_id_a
   \<and> has_field (store (sys_run ex_cfg ex_done ex_sys)) (key ex_cfg) ex_id_b
   \<and> phase (procs (sys_run ex_cfg ex_exits ex_sys) ! 0) = Exited (ScopeRaised ''boom'')
   \<and> \<not> has_field (store (sys_run ex_cfg ex_exits ex_sys)) (key ex_cfg) ex_id_a
   \<and> phase (procs (sys_run ex_cfg ex_exits ex_sys) ! 1) = Exited (LimitExceeded 1 5)
   \<and> \<not> has_field (store (sys_run ex_cfg ex_exits ex_sys)) (key ex_cfg) ex_id_b
   \<and> request ex_cfg ex_ob \<lparr>lock_id = ex_id_a, start = 0, phase = Release (Completed :: string outcome)\<rparr>
       = [HDEL ''jobs'' ex_id_a]"
  using limit_releases_on_every_exit [of ex_sys 0 ex_cfg ex_done Completed
          "\<lparr>lock_id = ex_id_a, start = 0, phase = Release Completed\<rparr>" Completed ex_ob ex_empty]
        limit_releases_on_every_exit [of ex_sys 0 ex_cfg ex_exits "ScopeRaised ''boom''"
          "\<lparr>lock_id = ex_id_a, start = 0, phase = Release Completed\<rparr>" Completed ex_ob ex_empty]
        limit_releases_on_every_exit [of ex_sys 1 ex_cfg ex_exits "LimitExceeded 1 5"
          "\<lparr>lock_id = ex_id_a, start = 0, phase = Release Completed\<rparr>" Completed ex_ob ex_empty]
  by (simp add: ex_defs2 eval_defs)

text \<open>
  Claim C3. A step raises the timeout error (enters the \<open>finally\<close> block with outcome
  \<open>LimitExceeded l t\<close>) exactly when it is taken in the handler of a rejected attempt
  and \<open>elapsed\<close>, the floating-point difference between the reading of the monotonic
  clock and the reading taken when the call started, is greater than \<open>limit_timeout\<close>;
  then \<open>l\<close> and \<open>t\<close> are the configured limit and timeout. The handler is entered
  exactly by a rejected attempt: a first check that found the record full, or a rollback,
  which follows exactly an insert whose count read back exceeded the limit. The start of
  the wait is the clock reading taken on entry and no step changes it. Any outcome
  \<open>limit\<close> ends with is the completion of the scoped block, the exception the scoped
  block raised, or this timeout error. In the examples the error is raised at an elapsed
  time of 7 and not at 1 under a timeout of 5, and not at the readings nearest to 0.001
  and 5.001 either, whose difference is rounded to 5.
\<close>

theorem limit_timeout_raised_iff:
  "((phase (snd (limit_step cfg ob (s, p))) = Release (LimitExceeded l t))
      = (phase p = Retry \<and> float_gt (double_sub (monotonic ob) (start p)) (limit_timeout cfg)
         \<and> l = limit cfg \<and> t = limit_timeout cfg))
   \<and> ((phase (snd (limit_step cfg ob (s, p))) = Retry)
      = ((phase p = Precheck \<and> limit cfg \<le> int (length (entries (s (key cfg)))))
         \<or> phase p = Rollback))
   \<and> ((phase (snd (limit_step cfg ob (s, p))) = Rollback)
      = (phase p = Acquire
         \<and> limit cfg < int (length (entries (fst (limit_step cfg ob (s, p)) (key cfg))))))
   \<and> start (snd (limit_step cfg ob (s, p))) = start p
   \<and> start (limit_enter uid now :: 'e process) = now
   \<and> (phase (snd (limit_step cfg ob (s, p))) = Release out \<longrightarrow>
        out = Completed \<and> scope_result ob = None \<and> (\<exists>c. phase p = Scope c)
      \<or> (\<exists>e. out = ScopeRaised e \<and> scope_result ob = Some e) \<and> (\<exists>c. phase p = Scope c)
      \<or> out = LimitExceeded (limit cfg) (limit_timeout cfg) \<and> phase p = Retry)"
proof -
  have a: "(phase (snd (limit_step cfg ob (s, p))) = Release (LimitExceeded l t))
      = (phase p = Retry \<and> float_gt (double_sub (monotonic ob) (start p)) (limit_timeout cfg)
         \<and> l = limit cfg \<and> t = limit_timeout cfg)"
    by (cases "phase p") (auto simp: step_simps split: option.splits)
  have b: "(phase (snd (limit_step cfg ob (s, p))) = Retry)
      = ((phase p = Precheck \<and> limit cfg \<le> int (length (entries (s (key cfg)))))
         \<or> phase p = Rollback)"
    by (cases "phase p") (auto simp: step_simps split: option.splits)
  have c: "(phase (snd (limit_step cfg ob (s, p))) = Rollback)
      = (phase p = Acquire
         \<and> limit cfg < int (length (entries (fst (limit_step cfg ob (s, p)) (key cfg)))))"
    by (cases "phase p") (auto simp: step_simps split: option.splits)
  have d: "start (snd (limit_step cfg ob (s, p))) = start p" by (rule step_start)
  have e: "start (limit_enter uid now :: 'e process) = now" by (simp add: limit_enter_def)
  have f: "phase (snd (limit_step cfg ob (s, p))) = Release out \<longrightarrow>
        out = Completed \<and> scope_result ob = None \<and> (\<exists>c. phase p = Scope c)
      \<or> (\<exists>e. out = ScopeRaised e \<and> scope_result ob = Some e) \<and> (\<exists>c. phase p = Scope c)
      \<or> out = LimitExceeded (limit cfg) (limit_timeout cfg) \<and> phase p = Retry"
    by (cases "phase p") (auto simp: step_simps split: option.splits if_splits)
  show ?thesis using a b c d e f by blast
qed

theorem limit_timeout_raised_iff_witness:
  "phase (snd (limit_step ex_cfg ex_ob_late (ex_empty, \<lparr>lock_id = ex_id_b, start = 0, phase = Retry\<rparr>)))
     = (Release (LimitExceeded 1 5) :: string phase)
   \<and> double_sub (monotonic ex_ob_late) 0 = Finite 7
   \<and> phase (snd (limit_step ex_cfg ex_ob (ex_empty, \<lparr>lock_id = ex_id_b, start = 0, phase = Retry\<rparr>)))
     = (Sleep :: string phase)
   \<and> double_sub (monotonic ex_ob) 0 = Finite 1
   \<and> phase (snd (limit_step ex_cfg ex_ob_ms
         (ex_empty, \<lparr>lock_id = ex_id_b, start = ex_start_ms, phase = Retry\<rparr>)))
     = (Sleep :: string phase)
   \<and> double_sub (monotonic ex_ob_ms) ex_start_ms = Finite 5
   \<and> limit_timeout ex_cfg < monotonic ex_ob_ms - ex_start_ms"
  using limit_timeout_raised_iff [of ex_cfg ex_ob_late ex_empty
          "\<lparr>lock_id = ex_id_b, start = 0, phase = Retry\<rparr>" 1 5 10 0 "LimitExceeded 1 5"]
        limit_timeout_raised_iff [of ex_cfg ex_ob ex_empty
          "\<lparr>lock_id = ex_id_b, start = 0, phase = Retry\<rparr>" 1 5 10 0 "LimitExceeded 1 5"]
        limit_timeout_raised_iff [of ex_cfg ex_ob_ms ex_empty
          "\<lparr>lock_id = ex_id_b, start = ex_start_ms, phase = Retry\<rparr>" 1 5 10 0 "LimitExceeded 1 5"]
  by (simp add: ex_defs2 eval_defs)

text \<open>
  Claim C4. In phase \<open>Acquire\<close> the step sends the batch \<open>hset\<close>, \<open>expire\<close>,
  \<open>hlen\<close> and the count is the length of the record the batch leaves. If the count
  exceeds the limit, the caller is in phase \<open>Rollback\<close>, and its next step, on whatever
  the store has become, deletes its own id and goes to the handler of the rejected attempt.
  Otherwise the caller is suspended at \<open>yield\<close> with that count and sends nothing while
  the scoped block runs.
\<close>

theorem limit_verify_after_insert:
  assumes "phase p = Acquire"
  shows "request cfg ob p =
           [HSET (key cfg) (lock_id p) (str_of_int (wall_clock ob + limit_expire cfg)),
            EXPIRE (key cfg) (limit_expire cfg), HLEN (key cfg)]
       \<and> fst (limit_step cfg ob (s, p)) = snd (pipeline_exec (request cfg ob p) s)
       \<and> (limit cfg < int (length (entries (fst (limit_step cfg ob (s, p)) (key cfg)))) \<longrightarrow>
            snd (limit_step cfg ob (s, p)) = p\<lparr>phase := Rollback\<rparr>
          \<and> limit_step cfg ob' (s', p\<lparr>phase := Rollback\<rparr>) =
              (snd (redis_exec (HDEL (key cfg) (lock_id p)) s'), p\<lparr>phase := Retry\<rparr>)
          \<and> \<not> has_field (fst (limit_step cfg ob' (s', p\<lparr>phase := Rollback\<rparr>))) (key cfg) (lock_id p))
       \<and> (\<not> limit cfg < int (length (entries (fst (limit_step cfg ob (s, p)) (key cfg)))) \<longrightarrow>
            snd (limit_step cfg ob (s, p)) =
              p\<lparr>phase := Scope (int (length (entries (fst (limit_step cfg ob (s, p)) (key cfg)))))\<rparr>
          \<and> request cfg ob' (snd (limit_step cfg ob (s, p))) = [])"
proof -
  have a: "request cfg ob p =
           [HSET (key cfg) (lock_id p) (str_of_int (wall_clock ob + limit_expire cfg)),
            EXPIRE (key cfg) (limit_expire cfg), HLEN (key cfg)]"
    using assms by (simp add: request_def)
  have b: "fst (limit_step cfg ob (s, p)) = snd (pipeline_exec (request cfg ob p) s)"
    by (simp add: limit_step_def case_prod_unfold)
  have rb: "limit_step cfg ob' (s', p\<lparr>phase := Rollback\<rparr>) =
              (snd (redis_exec (HDEL (key cfg) (lock_id p)) s'), p\<lparr>phase := Retry\<rparr>)"
    using step_Rollback [of "p\<lparr>phase := Rollback\<rparr>" cfg ob' s'] by simp
  have ab: "\<not> has_field (fst (limit_step cfg ob' (s', p\<lparr>phase := Rollback\<rparr>))) (key cfg) (lock_id p)"
    using hdel_absent [of "key cfg" "lock_id p" s'] by (simp only: rb fst_conv not_False_eq_True)
  have c: "limit cfg < int (length (entries (fst (limit_step cfg ob (s, p)) (key cfg)))) \<longrightarrow>
            snd (limit_step cfg ob (s, p)) = p\<lparr>phase := Rollback\<rparr>"
    using assms by (simp add: step_Acquire)
  have d: "\<not> limit cfg < int (length (entries (fst (limit_step cfg ob (s, p)) (key cfg)))) \<longrightarrow>
            snd (limit_step cfg ob (s, p)) =
              p\<lparr>phase := Scope (int (length (entries (fst (limit_step cfg ob (s, p)) (key cfg)))))\<rparr>
          \<and> request cfg ob' (snd (limit_step cfg ob (s, p))) = []"
    using assms by (simp add: step_Acquire request_def)
  show ?thesis using a b c d rb ab by blast
qed

theorem limit_verify_after_insert_witness:
  "phase \<lparr>lock_id = ex_id_b, start = 0, phase = (Acquire :: string phase)\<rparr> = Acquire
   \<and> limit ex_cfg < int (length (entries (fst (limit_step ex_cfg ex_ob
         (ex_full, \<lparr>lock_id = ex_id_b, start = 0, phase = (Acquire :: string phase)\<rparr>)) (key ex_cfg))))
   \<and> snd (limit_step ex_cfg ex_ob (ex_full, \<lparr>lock_id = ex_id_b, start = 0, phase = (Acquire :: string phase)\<rparr>))
       = \<lparr>lock_id = ex_id_b, start = 0, phase = Rollback\<rparr>
   \<and> \<not> limit ex_cfg < int (length (entries (fst (limit_step ex_cfg ex_ob
         (ex_empty, \<lparr>lock_id = ex_id_b, start = 0, phase = (Acquire :: string phase)\<rparr>)) (key ex_cfg))))
   \<and> snd (limit_step ex_cfg ex_ob (ex_empty, \<lparr>lock_id = ex_id_b, start = 0, phase = (Acquire :: string phase)\<rparr>))
       = \<lparr>lock_id = ex_id_b, start = 0, phase = Scope 1\<rparr>"
  using limit_verify_after_insert [of "\<lparr>lock_id = ex_id_b, start = 0, phase = (Acquire :: string phase)\<rparr>"
          ex_cfg ex_ob ex_full ex_ob ex_full]
        limit_verify_after_insert [of "\<lparr>lock_id = ex_id_b, start = 0, phase = (Acquire :: string phase)\<rparr>"
          ex_cfg ex_ob ex_empty ex_ob ex_empty]
  by (simp add: ex_defs2 eval_defs)

text \<open>
  Claim C5. On a record whose fields are distinct, the reaper leaves exactly the entries
  whose value converts to an integer strictly greater than the current time, in their
  order; it removes every entry whose value does not convert or converts to a time at or
  before the current one, and returns how many those are; other keys of the store are
  untouched. The reaper is a total function: a value that does not convert makes the test
  true instead of raising. On the record with expiries 990, 1010 and \<open>corrupt\<close> read at
  time 1000 it removes two entries, returns 2 and leaves the entry with expiry 1010.
\<close>

theorem limit_clean_removes_stale:
  assumes "distinct (map fst (entries (s (key cfg))))"
  shows "entries (snd (limit_clean cfg current s) (key cfg)) =
           filter (\<lambda>e. \<not> (py_int (snd e) = None \<or> (\<exists>t. py_int (snd e) = Some t \<and> t \<le> current)))
             (entries (s (key cfg)))
         \<and> fst (limit_clean cfg current s) =
           int (length (filter (\<lambda>e. py_int (snd e) = None \<or> (\<exists>t. py_int (snd e) = Some t \<and> t \<le> current))
             (entries (s (key cfg)))))
         \<and> (\<forall>k. k \<noteq> key cfg \<longrightarrow> snd (limit_clean cfg current s) k = s k)"
proof -
  have cl: "\<And>v. clean_lock current v = (py_int v = None \<or> (\<exists>t. py_int v = Some t \<and> t \<le> current))"
    by (auto simp: clean_lock_def split: option.splits)
  have a: "entries (snd (limit_clean cfg current s) (key cfg)) =
           filter (\<lambda>e. \<not> clean_lock current (snd e)) (entries (s (key cfg)))"
    unfolding limit_clean_def hscan_iter_def
    using clean_loop_entries [of "key cfg" current "entries (s (key cfg))" 0 s]
          filter_distinct_fields [OF assms, of "clean_lock current"] by simp
  have b: "fst (limit_clean cfg current s) =
           int (length (filter (\<lambda>e. clean_lock current (snd e)) (entries (s (key cfg)))))"
    unfolding limit_clean_def hscan_iter_def
    using clean_loop_count [of "entries (s (key cfg))" s "key cfg" current 0] assms by simp
  have c: "\<forall>k. k \<noteq> key cfg \<longrightarrow> snd (limit_clean cfg current s) k = s k"
    unfolding limit_clean_def by (simp add: clean_loop_other_key)
  show ?thesis using a b c by (simp add: cl)
qed

theorem limit_clean_removes_stale_witness:
  "distinct (map fst (entries (ex_record (key ex_cfg))))
   \<and> fst (limit_clean ex_cfg 1000 ex_record) = 2
   \<and> entries (snd (limit_clean ex_cfg 1000 ex_record) (key ex_cfg)) = [(''b'', ''1010'')]"
  using limit_clean_removes_stale [of ex_record ex_cfg 1000]
  by (simp add: ex_defs py_int_def strip_def is_space_def py_unsigned_def digit_of_def
        max_str_digits_def)

text \<open>
  Claim C6. When the first check reads a count at or above the limit, the iteration sends
  the single command \<open>hlen\<close>: the step of the check leaves the store as it is and goes to
  the handler, the handler sends nothing and either raises the timeout error or sleeps, and
  the sleep sends nothing and returns to the head of the loop with the store unchanged.
\<close>

theorem limit_fast_reject_writes_nothing:
  assumes "phase p = Precheck"
    and "limit cfg \<le> int (length (entries (s (key cfg))))"
  shows "request cfg ob p = [HLEN (key cfg)]
       \<and> limit_step cfg ob (s, p) = (s, p\<lparr>phase := Retry\<rparr>)
       \<and> request cfg ob' (p\<lparr>phase := Retry\<rparr>) = []
       \<and> limit_step cfg ob' (s, p\<lparr>phase := Retry\<rparr>) =
           (s, if float_gt (double_sub (monotonic ob') (start p)) (limit_timeout cfg)
               then p\<lparr>phase := Release (LimitExceeded (limit cfg) (limit_timeout cfg))\<rparr>
               else p\<lparr>phase := Sleep\<rparr>)
       \<and> request cfg ob'' (p\<lparr>phase := Sleep\<rparr>) = []
       \<and> limit_step cfg ob'' (s, p\<lparr>phase := Sleep\<rparr>) = (s, p\<lparr>phase := Precheck\<rparr>)"
proof -
  have a: "request cfg ob p = [HLEN (key cfg)]" using assms(1) by (simp add: request_def)
  have b: "limit_step cfg ob (s, p) = (s, p\<lparr>phase := Retry\<rparr>)"
    using assms by (simp add: step_Precheck)
  have c: "request cfg ob' (p\<lparr>phase := Retry\<rparr>) = []" by (simp add: request_def)
  have d: "limit_step cfg ob' (s, p\<lparr>phase := Retry\<rparr>) =
           (s, if float_gt (double_sub (monotonic ob') (start p)) (limit_timeout cfg)
               then p\<lparr>phase := Release (LimitExceeded (limit cfg) (limit_timeout cfg))\<rparr>
               else p\<lparr>phase := Sleep\<rparr>)"
    using step_Retry [of "p\<lparr>phase := Retry\<rparr>" cfg ob' s] by simp
  have e: "request cfg ob'' (p\<lparr>phase := Sleep\<rparr>) = []" by (simp add: request_def)
  have f: "limit_step cfg ob'' (s, p\<lparr>phase := Sleep\<rparr>) = (s, p\<lparr>phase := Precheck\<rparr>)"
    using step_Sleep [of "p\<lparr>phase := Sleep\<rparr>" cfg ob'' s] by simp
  show ?thesis using a b c d e f by blast
qed

theorem limit_fast_reject_writes_nothing_witness:
  "phase (limit_enter 11 0 :: string process) = Precheck
   \<and> limit ex_cfg \<le> int (length (entries (ex_full (key ex_cfg))))
   \<and> limit_run ex_cfg [ex_ob, ex_ob, ex_ob] (ex_full, limit_enter 11 0)
       = (ex_full, limit_enter 11 0)"
  using limit_fast_reject_writes_nothing [of "limit_enter 11 0 :: string process"
          ex_cfg ex_full ex_ob ex_ob ex_ob]
  by (simp add: ex_defs2 float_defs)

text \<open>
  Claim C7, as stated, fails. In the example the second caller is rolled back in its first
  iteration and inserts again in a later one; both inserts write the same slot id.
\<close>

theorem limit_fresh_id_per_attempt_counterexample:
  "slot_ids_written ex_cfg 1 ex_retry ex_sys = [ex_id_b, ex_id_b]
   \<and> \<not> distinct (slot_ids_written ex_cfg 1 ex_retry ex_sys)"
  by (simp add: ex_defs2 eval_defs)

text \<open>
  Claim C7, amended. A slot id is generated once per execution of \<open>limit\<close>, on entry and
  before the loop: it is the text, 36 characters long, of the 128-bit token that \<open>uuid4\<close>
  makes of the random number drawn. In every execution, every \<open>hset\<close> a caller sends and
  every \<open>hdel\<close> it sends, in a rollback or in the release, names the id the caller
  entered with, and no step of any caller changes an id. The ids of two executions are
  equal exactly when their tokens are; so callers that entered with distinct tokens have
  distinct ids, at every point of every execution.
\<close>

theorem limit_one_slot_id_per_execution:
  "set (slot_ids_written cfg i evs st) \<union> set (slot_ids_deleted cfg i evs st)
     \<subseteq> {lock_id (procs st ! i)}
   \<and> map lock_id (procs (sys_run cfg evs st)) = map lock_id (procs st)
   \<and> length (lock_id (limit_enter r now :: 'e process)) = 36
   \<and> ((lock_id (limit_enter r now :: 'e process) = lock_id (limit_enter r' now' :: 'e process))
        = (uuid4 r = uuid4 r'))
   \<and> (distinct (map (\<lambda>c. uuid4 (fst c)) callers) \<longrightarrow>
        distinct (map lock_id (procs (sys_run cfg evs
          \<lparr>store = s, procs = map (\<lambda>c. limit_enter (fst c) (snd c) :: 'e process) callers\<rparr>))))"
proof -
  have w: "set (slot_ids_written cfg i evs st) \<subseteq> {lock_id (procs st ! i)}"
    using slot_ids_written_own [of cfg i evs st] by (auto split: if_splits)
  have d: "set (slot_ids_deleted cfg i evs st) \<subseteq> {lock_id (procs st ! i)}"
    using slot_ids_deleted_own [of cfg i evs st] by (auto split: if_splits)
  have ids: "map lock_id (procs (sys_run cfg evs st)) = map lock_id (procs st)"
    by (rule sys_run_lock_ids)
  have len: "length (lock_id (limit_enter r now :: 'e process)) = 36"
    by (simp add: limit_enter_def length_str_uuid)
  have eq: "(lock_id (limit_enter r now :: 'e process) = lock_id (limit_enter r' now' :: 'e process))
        = (uuid4 r = uuid4 r')"
    by (simp add: limit_enter_def str_uuid_inj)
  have u: "distinct (map lock_id (procs (sys_run cfg evs
          \<lparr>store = s, procs = map (\<lambda>c. limit_enter (fst c) (snd c) :: 'e process) callers\<rparr>)))"
    if "distinct (map (\<lambda>c. uuid4 (fst c)) callers)"
    using entered_ids_distinct [OF that] by (simp only: sys_run_lock_ids system.simps)
  show ?thesis using w d ids len eq u by blast
qed

theorem limit_one_slot_id_per_execution_witness:
  "slot_ids_written ex_cfg 1 ex_exits ex_sys = [ex_id_b]
   \<and> slot_ids_deleted ex_cfg 1 ex_exits ex_sys = [ex_id_b, ex_id_b]
   \<and> lock_id (procs ex_sys ! 1) = ex_id_b
   \<and> map lock_id (procs (sys_run ex_cfg ex_exits ex_sys)) = [ex_id_a, ex_id_b]
   \<and> length ex_id_b = 36
   \<and> uuid4 10 \<noteq> uuid4 11
   \<and> distinct (map (\<lambda>c. uuid4 (fst c)) [(10, 0 :: real), (11, 0)])
   \<and> distinct (map lock_id (procs (sys_run ex_cfg ex_exits ex_sys)))"
  using limit_one_slot_id_per_execution [of ex_cfg 1 ex_exits ex_sys 10 0 11 0
          "[(10, 0), (11, 0)]" ex_empty]
  by (simp add: ex_defs2 eval_defs uuid4_def ex_id_a_def ex_id_b_def)

text \<open>
  Claim C8. When the scoped block raises \<open>e\<close>, the step at \<open>yield\<close> leaves the store
  as it is and enters the \<open>finally\<close> block with outcome \<open>ScopeRaised e\<close>: not the
  handler of \<open>_LockAcquireException\<close>, so no retry follows. The next step, on whatever
  the store has become, deletes the own id and leaves \<open>limit\<close> with that same
  \<open>ScopeRaised e\<close>, the id being absent from the store; and nothing happens after.
\<close>

theorem limit_propagates_scope_failure:
  assumes "phase p = Scope c" and "scope_result ob = Some e"
  shows "limit_step cfg ob (s, p) = (s, p\<lparr>phase := Release (ScopeRaised e)\<rparr>)
       \<and> limit_step cfg ob' (s', p\<lparr>phase := Release (ScopeRaised e)\<rparr>) =
           (snd (redis_exec (HDEL (key cfg) (lock_id p)) s'), p\<lparr>phase := Exited (ScopeRaised e)\<rparr>)
       \<and> \<not> has_field (fst (limit_step cfg ob' (s', p\<lparr>phase := Release (ScopeRaised e)\<rparr>)))
            (key cfg) (lock_id p)
       \<and> limit_step cfg ob'' (s'', p\<lparr>phase := Exited (ScopeRaised e)\<rparr>) =
           (s'', p\<lparr>phase := Exited (ScopeRaised e)\<rparr>)"
proof -
  have a: "limit_step cfg ob (s, p) = (s, p\<lparr>phase := Release (ScopeRaised e)\<rparr>)"
    using assms by (simp add: step_Scope)
  have b: "limit_step cfg ob' (s', p\<lparr>phase := Release (ScopeRaised e)\<rparr>) =
           (snd (redis_exec (HDEL (key cfg) (lock_id p)) s'), p\<lparr>phase := Exited (ScopeRaised e)\<rparr>)"
    using step_Release [of "p\<lparr>phase := Release (ScopeRaised e)\<rparr>" "ScopeRaised e" cfg ob' s']
    by simp
  have c: "\<not> has_field (fst (limit_step cfg ob' (s', p\<lparr>phase := Release (ScopeRaised e)\<rparr>)))
            (key cfg) (lock_id p)"
    using hdel_absent [of "key cfg" "lock_id p" s'] by (simp only: b fst_conv not_False_eq_True)
  have d: "limit_step cfg ob'' (s'', p\<lparr>phase := Exited (ScopeRaised e)\<rparr>) =
           (s'', p\<lparr>phase := Exited (ScopeRaised e)\<rparr>)"
    using step_Exited [of "p\<lparr>phase := Exited (ScopeRaised e)\<rparr>" "ScopeRaised e" cfg ob'' s'']
    by simp
  show ?thesis using a b c d by blast
qed

theorem limit_propagates_scope_failure_witness:
  "phase \<lparr>lock_id = ex_id_a, start = 0, phase = (Scope 1 :: string phase)\<rparr> = Scope 1
   \<and> scope_result ex_ob_raise = Some ''boom''
   \<and> snd (limit_run ex_cfg [ex_ob_raise, ex_ob] (ex_full, \<lparr>lock_id = ex_id_a, start = 0, phase = Scope 1\<rparr>))
       = \<lparr>lock_id = ex_id_a, start = 0, phase = Exited (ScopeRaised ''boom'')\<rparr>
   \<and> entries (fst (limit_run ex_cfg [ex_ob_raise, ex_ob]
         (ex_full, \<lparr>lock_id = ex_id_a, start = 0, phase = Scope 1\<rparr>)) (key ex_cfg)) = []"
  using limit_propagates_scope_failure [of "\<lparr>lock_id = ex_id_a, start = 0, phase = Scope 1\<rparr>" 1
          ex_ob_raise "''boom''" ex_cfg ex_full ex_ob ex_full ex_ob ex_empty]
  by (simp add: ex_defs2 eval_defs)

text \<open>
  Claim C9. In the \<open>finally\<close> block, when the own id is absent from the record, the
  \<open>hdel\<close> replies 0 and leaves the whole store as it is, and \<open>limit\<close> ends with the
  outcome it had. In every case the release keeps all entries of the record with another
  id, in their order, and does not touch other keys.
\<close>

theorem limit_release_absent_is_noop:
  assumes "phase p = Release out"
  shows "(\<not> has_field s (key cfg) (lock_id p) \<longrightarrow>
            redis_exec (HDEL (key cfg) (lock_id p)) s = (0, s)
          \<and> limit_step cfg ob (s, p) = (s, p\<lparr>phase := Exited out\<rparr>))
       \<and> entries (fst (limit_step cfg ob (s, p)) (key cfg)) =
           filter (\<lambda>e. fst e \<noteq> lock_id p) (entries (s (key cfg)))
       \<and> (\<forall>k. k \<noteq> key cfg \<longrightarrow> fst (limit_step cfg ob (s, p)) k = s k)"
proof -
  have a: "\<not> has_field s (key cfg) (lock_id p) \<longrightarrow>
            redis_exec (HDEL (key cfg) (lock_id p)) s = (0, s)
          \<and> limit_step cfg ob (s, p) = (s, p\<lparr>phase := Exited out\<rparr>)"
    using assms by (simp add: step_Release)
  have "entries (fst (limit_step cfg ob (s, p)) (key cfg)) =
          AList.delete (lock_id p) (entries (s (key cfg)))"
    using hdel_entries [of "key cfg" "lock_id p" s] by (simp only: step_Release [OF assms] fst_conv)
  then have b: "entries (fst (limit_step cfg ob (s, p)) (key cfg)) =
           filter (\<lambda>e. fst e \<noteq> lock_id p) (entries (s (key cfg)))"
    by (simp add: AList.delete_eq case_prod_unfold eq_commute)
  have c: "\<forall>k. k \<noteq> key cfg \<longrightarrow> fst (limit_step cfg ob (s, p)) k = s k"
    using assms by (simp add: step_Release)
  show ?thesis using a b c by blast
qed

theorem limit_release_absent_is_noop_witness:
  "phase \<lparr>lock_id = ex_id_b, start = 0, phase = Release (LimitExceeded 1 5 :: string outcome)\<rparr>
     = Release (LimitExceeded 1 5)
   \<and> \<not> has_field ex_full (key ex_cfg) ex_id_b
   \<and> limit_step ex_cfg ex_ob
        (ex_full, \<lparr>lock_id = ex_id_b, start = 0, phase = Release (LimitExceeded 1 5 :: string outcome)\<rparr>)
       = (ex_full, \<lparr>lock_id = ex_id_b, start = 0, phase = Exited (LimitExceeded 1 5)\<rparr>)
   \<and> entries (ex_full (key ex_cfg)) = [(ex_id_a, ''1030'')]"
  using limit_release_absent_is_noop
          [of "\<lparr>lock_id = ex_id_b, start = 0, phase = Release (LimitExceeded 1 5 :: string outcome)\<rparr>"
              "LimitExceeded 1 5" ex_full ex_cfg ex_ob]
  by (simp add: ex_defs2 has_field_def)

text \<open>
  Claim C10, as stated, fails. With a slot time-to-live of zero the \<open>expire\<close> of the batch
  deletes the record the \<open>hset\<close> has just written, the count read back is 0, and the
  caller is suspended at \<open>yield 0\<close>.
\<close>

theorem limit_yields_zero_count_counterexample:
  "\<lparr>lock_id = ex_id_a, start = 0, phase = Scope 0\<rparr>
     \<in> set (procs (sys_run ex_cfg_zero [Run 0 ex_ob, Run 0 ex_ob] ex_sys))
   \<and> \<not> (1 :: int) \<le> 0
   \<and> entries (store (sys_run ex_cfg_zero [Run 0 ex_ob, Run 0 ex_ob] ex_sys) (key ex_cfg_zero)) = []"
  by (simp add: ex_defs2 eval_defs)

text \<open>
  Claim C10, amended. In every execution of callers that enter \<open>limit\<close> and run in any
  interleaving, a caller suspended at \<open>yield count\<close> has \<open>count \<le> limit\<close>, and
  \<open>1 \<le> count\<close> if the slot time-to-live is positive. A step arrives at \<open>yield\<close> only
  from phase \<open>Acquire\<close>, the count is the length of the record the batch leaves, and with
  a positive slot time-to-live that record holds the caller's own id.
\<close>

theorem limit_yields_count_within_limit:
  assumes "\<forall>p \<in> set (procs st). phase p = Precheck"
    and "p \<in> set (procs (sys_run cfg evs st))"
    and "phase p = Scope c"
  shows "c \<le> limit cfg \<and> (0 < limit_expire cfg \<longrightarrow> 1 \<le> c)
       \<and> (phase (snd (limit_step cfg ob (s, q))) = Scope c' \<longrightarrow>
            phase q = Acquire
          \<and> c' = int (length (entries (fst (limit_step cfg ob (s, q)) (key cfg))))
          \<and> (0 < limit_expire cfg \<longrightarrow>
               has_field (fst (limit_step cfg ob (s, q))) (key cfg) (lock_id q)))"
proof -
  have "\<forall>p \<in> set (procs st). \<forall>c. phase p = Scope c \<longrightarrow>
          c \<le> limit cfg \<and> (0 < limit_expire cfg \<longrightarrow> 1 \<le> c)"
    using assms(1) by simp
  then have "\<forall>p \<in> set (procs (sys_run cfg evs st)). \<forall>c. phase p = Scope c \<longrightarrow>
          c \<le> limit cfg \<and> (0 < limit_expire cfg \<longrightarrow> 1 \<le> c)"
    by (rule scope_bounds_sys_run)
  then have a: "c \<le> limit cfg \<and> (0 < limit_expire cfg \<longrightarrow> 1 \<le> c)"
    using assms(2,3) by blast
  show ?thesis
    using a step_into_Scope [of cfg ob s q c'] step_into_Scope_le [of cfg ob s q c'] by blast
qed

theorem limit_yields_count_within_limit_witness:
  "map phase (procs ex_sys) = [Precheck, Precheck]
   \<and> \<lparr>lock_id = ex_id_a, start = 0, phase = Scope 1\<rparr> \<in> set (procs (sys_run ex_cfg ex_race ex_sys))
   \<and> (1::int) \<le> limit ex_cfg \<and> 0 < limit_expire ex_cfg \<and> (1::int) \<le> 1
   \<and> phase (snd (limit_step ex_cfg ex_ob (ex_empty, \<lparr>lock_id = ex_id_a, start = 0, phase = Acquire\<rparr>)))
       = (Scope 1 :: string phase)
   \<and> has_field (fst (limit_step ex_cfg ex_ob (ex_empty, \<lparr>lock_id = ex_id_a, start = 0, phase = (Acquire :: string phase)\<rparr>)))
        (key ex_cfg) ex_id_a"
  using limit_yields_count_within_limit [of ex_sys
          "\<lparr>lock_id = ex_id_a, start = 0, phase = Scope 1\<rparr>" ex_cfg ex_race 1 ex_ob ex_empty
          "\<lparr>lock_id = ex_id_a, start = 0, phase = Acquire\<rparr>" 1]
  by (simp add: ex_defs2 eval_defs)

end
